theory Spec2Isabelle
  imports Main "HOL-Library.Sublist"
begin

section \<open>The schema type map (graphql/type/typemap.py)\<close>

subsection \<open>Types as the code has them\<close>

text \<open>
  A GraphQL named type is a Python object; two types can refer to each other through
  their fields, so the type graph may be cyclic. The objects live in a store
  (\<open>heap\<close>), a reference is an index into it, and object identity is equality of
  references. A type expression is a reference to a named type under any number of
  \<open>GraphQLList\<close> and \<open>GraphQLNonNull\<close> wrappers; \<open>None\<close> is the Python value
  \<open>None\<close>.
\<close>

type_synonym ref = nat

datatype gtype =
    Named ref
  | GraphQLList gtype
  | GraphQLNonNull gtype

record GraphQLArgument =
  arg_type :: gtype

record GraphQLField =
  field_type :: gtype
  field_args :: "(string \<times> GraphQLArgument) list"

record GraphQLInputObjectField =
  input_field_type :: gtype

text \<open>
  The named types. Field maps and argument maps are ordered dictionaries: association
  lists in declaration order. \<open>interfaces\<close> of an object type and \<open>types\<close> of a
  union are lists of named types.
\<close>

datatype type_def =
    GraphQLScalarType string
  | GraphQLObjectType string "(string \<times> GraphQLField) list" "ref list"
  | GraphQLInterfaceType string "(string \<times> GraphQLField) list"
  | GraphQLUnionType string "ref list"
  | GraphQLEnumType string
  | GraphQLInputObjectType string "(string \<times> GraphQLInputObjectField) list"

type_synonym heap = "type_def list"

fun type_name :: "type_def \<Rightarrow> string" where
  "type_name (GraphQLScalarType n) = n"
| "type_name (GraphQLObjectType n fs is) = n"
| "type_name (GraphQLInterfaceType n fs) = n"
| "type_name (GraphQLUnionType n ts) = n"
| "type_name (GraphQLEnumType n) = n"
| "type_name (GraphQLInputObjectType n fs) = n"

definition deref :: "heap \<Rightarrow> ref \<Rightarrow> type_def option" where
  "deref h r = (if r < length h then Some (h ! r) else None)"

text \<open>The innermost named type of a type expression.\<close>

fun named_of :: "gtype \<Rightarrow> ref" where
  "named_of (Named r) = r"
| "named_of (GraphQLList t) = named_of t"
| "named_of (GraphQLNonNull t) = named_of t"

text \<open>
  Modelled from the spec: \<open>is_input_type\<close> and \<open>is_output_type\<close> of
  graphql/type/definition.py, which is not among the sources. Input types are scalars,
  enums, input objects and lists or non-nulls of them; output types are scalars, objects,
  interfaces, unions, enums and lists or non-nulls of them.
\<close>

definition is_input_type :: "heap \<Rightarrow> gtype \<Rightarrow> bool" where
  "is_input_type h t =
     (case deref h (named_of t) of
        Some (GraphQLScalarType n) \<Rightarrow> True
      | Some (GraphQLEnumType n) \<Rightarrow> True
      | Some (GraphQLInputObjectType n fs) \<Rightarrow> True
      | _ \<Rightarrow> False)"

definition is_output_type :: "heap \<Rightarrow> gtype \<Rightarrow> bool" where
  "is_output_type h t =
     (case deref h (named_of t) of
        Some (GraphQLScalarType n) \<Rightarrow> True
      | Some (GraphQLObjectType n fs is) \<Rightarrow> True
      | Some (GraphQLInterfaceType n fs) \<Rightarrow> True
      | Some (GraphQLUnionType n ts) \<Rightarrow> True
      | Some (GraphQLEnumType n) \<Rightarrow> True
      | _ \<Rightarrow> False)"

subsection \<open>Errors\<close>

text \<open>
  A failed \<open>assert\<close> of typemap.py. The assertion on unique names formats its
  message from the name alone, and the model carries the message
  (\<open>AssertionError\<close>). The other messages print type objects, whose printing is
  defined outside the sources: each of those assertions is a constructor that carries the
  values the source formats. \<open>OutOfFuel\<close> is not an error of the source: it is the
  value of a traversal cut off by its recursion budget. \<open>DanglingReference\<close> and
  \<open>NotAnInterface\<close> stand for stores Python cannot build (a reference to no object,
  an \<open>interfaces\<close> entry that is no interface type).
\<close>

datatype error =
    OutOfFuel
  | DanglingReference ref
  | NotAnInterface ref
  | AssertionError string
  | FieldTypeMustBeInput string string gtype
  | FieldTypeMustBeOutput string string gtype
  | ArgTypeMustBeInput string string string gtype
  | ExpectsField string string string
  | ExpectsType string string gtype string gtype
  | ExpectsArgument string string string string
  | ExpectsArgType string string string gtype string gtype
  | RequiredExtraArg string string string gtype string
  | NotAbstract ref
  | NoPossibleTypes string

text \<open>The message of the assertion on unique names, as the source formats it.\<close>

definition unique_named_types_message :: "string \<Rightarrow> string" where
  "unique_named_types_message n =
     ''Schema must contain unique named types but contains multiple types named \"''
       @ n @ ''\".''"

subsection \<open>The reducer\<close>

text \<open>
  The \<open>for\<close> loops of the source thread \<open>reduced_map\<close> through their bodies and stop
  at the first failed assertion.
\<close>

fun fold_err :: "('a \<Rightarrow> 's \<Rightarrow> error + 's) \<Rightarrow> 'a list \<Rightarrow> 's \<Rightarrow> error + 's" where
  "fold_err f [] s = Inr s"
| "fold_err f (x # xs) s =
     (case f x s of Inl e \<Rightarrow> Inl e | Inr s' \<Rightarrow> fold_err f xs s')"

type_synonym type_map = "(string \<times> ref) list"

text \<open>
  The loops of the reducer over union members or interfaces, over the arguments of a
  field, and over the fields of an object, interface or input object type. \<open>rec\<close> is
  the recursive call \<open>cls.reducer\<close>. Field and argument objects are typed in the model,
  so the \<open>isinstance\<close> assertions on them hold by construction; the assertions on
  their types are kept, in the source's order.
\<close>

definition reduce_types ::
  "(type_map \<Rightarrow> gtype option \<Rightarrow> error + type_map) \<Rightarrow> ref list \<Rightarrow> type_map \<Rightarrow> error + type_map"
where
  "reduce_types rec ts mp = fold_err (\<lambda>t m. rec m (Some (Named t))) ts mp"

definition reduce_args ::
  "(type_map \<Rightarrow> gtype option \<Rightarrow> error + type_map) \<Rightarrow> heap \<Rightarrow> string \<Rightarrow> string \<Rightarrow>
     (string \<times> GraphQLArgument) list \<Rightarrow> type_map \<Rightarrow> error + type_map"
where
  "reduce_args rec h tname field_name as mp =
     fold_err (\<lambda>(arg_name, arg) m.
       if \<not> is_input_type h (arg_type arg)
       then Inl (ArgTypeMustBeInput tname field_name arg_name (arg_type arg))
       else rec m (Some (arg_type arg))) as mp"

definition reduce_output_fields ::
  "(type_map \<Rightarrow> gtype option \<Rightarrow> error + type_map) \<Rightarrow> heap \<Rightarrow> string \<Rightarrow>
     (string \<times> GraphQLField) list \<Rightarrow> type_map \<Rightarrow> error + type_map"
where
  "reduce_output_fields rec h tname field_map mp =
     fold_err (\<lambda>(field_name, field) m.
       if \<not> is_output_type h (field_type field)
       then Inl (FieldTypeMustBeOutput tname field_name (field_type field))
       else
         (case reduce_args rec h tname field_name (field_args field) m of
            Inl e \<Rightarrow> Inl e
          | Inr m' \<Rightarrow> rec m' (Some (field_type field)))) field_map mp"

definition reduce_input_fields ::
  "(type_map \<Rightarrow> gtype option \<Rightarrow> error + type_map) \<Rightarrow> heap \<Rightarrow> string \<Rightarrow>
     (string \<times> GraphQLInputObjectField) list \<Rightarrow> type_map \<Rightarrow> error + type_map"
where
  "reduce_input_fields rec h tname field_map mp =
     fold_err (\<lambda>(field_name, field) m.
       if \<not> is_input_type h (input_field_type field)
       then Inl (FieldTypeMustBeInput tname field_name (input_field_type field))
       else rec m (Some (input_field_type field))) field_map mp"

text \<open>
  \<open>reducer fuel h mp ty\<close> is \<open>GraphQLTypeMap.reducer(mp, ty)\<close>. The map is an
  \<open>OrderedDict\<close>: an association list in insertion order, and the assignment
  \<open>mp[name] = ty\<close> for a name not yet present appends an entry. The fuel bounds the
  nesting of calls that insert a new named type; a call that unwraps a wrapper, returns
  at \<open>None\<close> or finds the name present uses none. Python's own recursion limit is not
  modelled.
\<close>

fun reducer :: "nat \<Rightarrow> heap \<Rightarrow> type_map \<Rightarrow> gtype option \<Rightarrow> error + type_map" where
  "reducer fuel h mp None = Inr mp"
| "reducer fuel h mp (Some (GraphQLList of_type)) = reducer fuel h mp (Some of_type)"
| "reducer fuel h mp (Some (GraphQLNonNull of_type)) = reducer fuel h mp (Some of_type)"
| "reducer fuel h mp (Some (Named r)) =
     (case deref h r of
        None \<Rightarrow> Inl (DanglingReference r)
      | Some ty \<Rightarrow>
         (case map_of mp (type_name ty) of
            Some r' \<Rightarrow>
              if r' = r then Inr mp else Inl (AssertionError (unique_named_types_message (type_name ty)))
          | None \<Rightarrow>
             (case fuel of
                0 \<Rightarrow> Inl OutOfFuel
              | Suc n \<Rightarrow>
                 (let reduced_map = mp @ [(type_name ty, r)];
                      rec = (\<lambda>m t. reducer n h m t)
                  in case ty of
                       GraphQLUnionType nm ts \<Rightarrow> reduce_types rec ts reduced_map
                     | GraphQLObjectType nm field_map ifaces \<Rightarrow>
                         (case reduce_types rec ifaces reduced_map of
                            Inl e \<Rightarrow> Inl e
                          | Inr m \<Rightarrow> reduce_output_fields rec h nm field_map m)
                     | GraphQLInterfaceType nm field_map \<Rightarrow>
                         reduce_output_fields rec h nm field_map reduced_map
                     | GraphQLInputObjectType nm field_map \<Rightarrow>
                         reduce_input_fields rec h nm field_map reduced_map
                     | _ \<Rightarrow> Inr reduced_map))))"

subsection \<open>The type map object\<close>

text \<open>
  A \<open>GraphQLTypeMap\<close> is the ordered dictionary itself (\<open>entries\<close>) with its two
  private dictionaries: \<open>_possible_type_map\<close>, a \<open>defaultdict(set)\<close>, and
  \<open>_implementations\<close>, a \<open>defaultdict(list)\<close>.
\<close>

record GraphQLTypeMap =
  entries :: type_map
  possible_type_map :: "string \<rightharpoonup> string set"
  implementations :: "string \<rightharpoonup> ref list"

text \<open>\<open>self._implementations[interface.name].append(gql_type)\<close>\<close>

definition add_implementation ::
  "heap \<Rightarrow> ref \<Rightarrow> ref \<Rightarrow> (string \<rightharpoonup> ref list) \<Rightarrow> error + (string \<rightharpoonup> ref list)"
where
  "add_implementation h gql_type interface impl =
     (case deref h interface of
        None \<Rightarrow> Inl (DanglingReference interface)
      | Some i \<Rightarrow>
          Inr (impl(type_name i \<mapsto>
                 (case impl (type_name i) of None \<Rightarrow> [] | Some l \<Rightarrow> l) @ [gql_type])))"

text \<open>The first loop of \<open>__init__\<close> over \<open>self.values()\<close>.\<close>

definition build_implementations ::
  "heap \<Rightarrow> ref list \<Rightarrow> error + (string \<rightharpoonup> ref list)"
where
  "build_implementations h vals =
     fold_err (\<lambda>gql_type impl.
       case deref h gql_type of
         None \<Rightarrow> Inl (DanglingReference gql_type)
       | Some (GraphQLObjectType nm field_map ifaces) \<Rightarrow>
           fold_err (add_implementation h gql_type) ifaces impl
       | Some _ \<Rightarrow> Inr impl) vals Map.empty"

text \<open>
  Modelled from the spec: \<open>is_equal_type\<close> of graphql/utils/type_comparators.py,
  which is not among the sources. The spec asks for an identical type: the same named
  type under the same wrappers.
\<close>

definition is_equal_type :: "gtype \<Rightarrow> gtype \<Rightarrow> bool" where
  "is_equal_type a b = (a = b)"

text \<open>
  \<open>is_type_sub_type_of\<close>, of the same absent file, is a parameter of the model: a
  predicate on the schema and two types.
\<close>

type_synonym sub_type_pred = "GraphQLTypeMap \<Rightarrow> gtype \<Rightarrow> gtype \<Rightarrow> bool"

fun is_non_null :: "gtype \<Rightarrow> bool" where
  "is_non_null (GraphQLNonNull t) = True"
| "is_non_null _ = False"

text \<open>
  An assertion loop has no state to thread: \<open>check_all f xs\<close> runs the checks in order
  and stops at the first that fails.
\<close>

definition check_all :: "('a \<Rightarrow> error + unit) \<Rightarrow> 'a list \<Rightarrow> error + unit" where
  "check_all f xs = fold_err (\<lambda>x u. f x) xs ()"

text \<open>
  The body of \<open>assert_object_implements_interface\<close> for one field of the interface;
  \<open>oname\<close> and \<open>iname\<close> print the object and the interface in the messages.
\<close>

definition check_interface_field ::
  "sub_type_pred \<Rightarrow> GraphQLTypeMap \<Rightarrow> string \<Rightarrow> (string \<times> GraphQLField) list \<Rightarrow> string \<Rightarrow>
     string \<times> GraphQLField \<Rightarrow> error + unit"
where
  "check_interface_field is_type_sub_type_of schema oname object_field_map iname =
     (\<lambda>(field_name, interface_field).
        case map_of object_field_map field_name of
          None \<Rightarrow> Inl (ExpectsField iname field_name oname)
        | Some object_field \<Rightarrow>
            if \<not> is_type_sub_type_of schema (field_type object_field)
                   (field_type interface_field)
            then Inl (ExpectsType iname field_name (field_type interface_field) oname
                   (field_type object_field))
            else
              (case check_all (\<lambda>(arg_name, interface_arg).
                      case map_of (field_args object_field) arg_name of
                        None \<Rightarrow> Inl (ExpectsArgument iname field_name arg_name oname)
                      | Some object_arg \<Rightarrow>
                          if \<not> is_equal_type (arg_type interface_arg) (arg_type object_arg)
                          then Inl (ExpectsArgType iname field_name arg_name
                                 (arg_type interface_arg) oname (arg_type object_arg))
                          else Inr ())
                    (field_args interface_field) of
                 Inl e \<Rightarrow> Inl e
               | Inr u \<Rightarrow>
                   check_all (\<lambda>(arg_name, object_arg).
                     case map_of (field_args interface_field) arg_name of
                       None \<Rightarrow>
                         if is_non_null (arg_type object_arg)
                         then Inl (RequiredExtraArg oname field_name arg_name
                                (arg_type object_arg) iname)
                         else Inr ()
                     | Some interface_arg \<Rightarrow> Inr ())
                   (field_args object_field)))"

definition assert_object_implements_interface ::
  "sub_type_pred \<Rightarrow> GraphQLTypeMap \<Rightarrow> heap \<Rightarrow> ref \<Rightarrow> ref \<Rightarrow> error + unit"
where
  "assert_object_implements_interface is_type_sub_type_of schema h object interface =
     (case deref h object of
        Some (GraphQLObjectType oname object_field_map ifaces) \<Rightarrow>
          (case deref h interface of
             Some (GraphQLInterfaceType iname interface_field_map) \<Rightarrow>
               check_all
                 (check_interface_field is_type_sub_type_of schema oname object_field_map iname)
                 interface_field_map
           | Some _ \<Rightarrow> Inl (NotAnInterface interface)
           | None \<Rightarrow> Inl (DanglingReference interface))
      | Some _ \<Rightarrow> Inl (NotAnInterface interface)
      | None \<Rightarrow> Inl (DanglingReference object))"

text \<open>The second loop of \<open>__init__\<close> over \<open>self.values()\<close>.\<close>

definition enforce_implementations ::
  "sub_type_pred \<Rightarrow> GraphQLTypeMap \<Rightarrow> heap \<Rightarrow> ref list \<Rightarrow> error + unit"
where
  "enforce_implementations is_type_sub_type_of self h vals =
     check_all (\<lambda>ty.
       case deref h ty of
         None \<Rightarrow> Inl (DanglingReference ty)
       | Some (GraphQLObjectType nm field_map ifaces) \<Rightarrow>
           check_all (assert_object_implements_interface is_type_sub_type_of self h ty) ifaces
       | Some _ \<Rightarrow> Inr ()) vals"

text \<open>
  \<open>GraphQLTypeMap.__init__(types)\<close>. Each root is reduced with a budget of one nested
  insertion per object of the store.
\<close>

definition GraphQLTypeMap_init ::
  "sub_type_pred \<Rightarrow> heap \<Rightarrow> gtype option list \<Rightarrow> error + GraphQLTypeMap"
where
  "GraphQLTypeMap_init is_type_sub_type_of h types =
     (case fold_err (\<lambda>ty mp. reducer (length h) h mp ty) types [] of
        Inl e \<Rightarrow> Inl e
      | Inr mp \<Rightarrow>
          (case build_implementations h (map snd mp) of
             Inl e \<Rightarrow> Inl e
           | Inr impl \<Rightarrow>
               (let self = \<lparr>entries = mp, possible_type_map = Map.empty,
                            implementations = impl\<rparr>
                in case enforce_implementations is_type_sub_type_of self h (map snd mp) of
                     Inl e \<Rightarrow> Inl e
                   | Inr u \<Rightarrow> Inr self)))"

subsection \<open>Queries\<close>

definition get_possible_types :: "GraphQLTypeMap \<Rightarrow> heap \<Rightarrow> ref \<Rightarrow> error + ref list" where
  "get_possible_types self h abstract_type =
     (case deref h abstract_type of
        None \<Rightarrow> Inl (DanglingReference abstract_type)
      | Some (GraphQLUnionType nm ts) \<Rightarrow> Inr ts
      | Some (GraphQLInterfaceType nm field_map) \<Rightarrow>
          (case implementations self nm of None \<Rightarrow> Inr [] | Some l \<Rightarrow> Inr l)
      | Some _ \<Rightarrow> Inl (NotAbstract abstract_type))"

text \<open>\<open>[p.name for p in possible_types]\<close>\<close>

fun names_of :: "heap \<Rightarrow> ref list \<Rightarrow> error + string list" where
  "names_of h [] = Inr []"
| "names_of h (p # ps) =
     (case deref h p of
        None \<Rightarrow> Inl (DanglingReference p)
      | Some d \<Rightarrow>
          (case names_of h ps of Inl e \<Rightarrow> Inl e | Inr ns \<Rightarrow> Inr (type_name d # ns)))"

definition is_possible_type ::
  "GraphQLTypeMap \<Rightarrow> heap \<Rightarrow> ref \<Rightarrow> ref \<Rightarrow> error + bool \<times> GraphQLTypeMap"
where
  "is_possible_type self h abstract_type possible_type =
     (case get_possible_types self h abstract_type of
        Inl e \<Rightarrow> Inl e
      | Inr possible_types \<Rightarrow>
          (case deref h abstract_type of
             None \<Rightarrow> Inl (DanglingReference abstract_type)
           | Some a \<Rightarrow>
               if possible_types = [] then Inl (NoPossibleTypes (type_name a))
               else
                 (case possible_type_map self (type_name a) of
                    Some cached \<Rightarrow>
                      (case deref h possible_type of
                         None \<Rightarrow> Inl (DanglingReference possible_type)
                       | Some p \<Rightarrow> Inr (type_name p \<in> cached, self))
                  | None \<Rightarrow>
                      (case names_of h possible_types of
                         Inl e \<Rightarrow> Inl e
                       | Inr ns \<Rightarrow>
                           (case deref h possible_type of
                              None \<Rightarrow> Inl (DanglingReference possible_type)
                            | Some p \<Rightarrow>
                                Inr (type_name p \<in> set ns,
                                     self\<lparr>possible_type_map :=
                                       (possible_type_map self)(type_name a \<mapsto> set ns)\<rparr>))))))"

section \<open>The rule on unique fragment names (graphql/validation/rules/unique_fragment_names.py)\<close>

text \<open>
  Of the syntax tree the rule reads only the name node of a fragment definition: its
  \<open>value\<close>, and the node itself, which it stores and reports. \<open>name_loc\<close> is the
  position of the node in the source; it tells two name nodes of the same value apart.
\<close>

record NameNode =
  name_value :: string
  name_loc :: nat

record FragmentDefinitionNode =
  fragment_def_name :: NameNode

record GraphQLError =
  message :: string
  nodes :: "NameNode list"

text \<open>What an enter hook returns: the rule only ever returns \<open>self.SKIP\<close>.\<close>

datatype visitor_action = SKIP

text \<open>
  The rule object: its dictionary \<open>known_fragment_names\<close>, and \<open>reported\<close>, the
  errors handed to the validation context so far.
\<close>

record UniqueFragmentNamesRule =
  known_fragment_names :: "string \<rightharpoonup> NameNode"
  reported :: "GraphQLError list"

definition duplicate_fragment_name_message :: "string \<Rightarrow> string" where
  "duplicate_fragment_name_message frag_name =
     ''There can only be one fragment named '' @ [CHR 0x27] @ frag_name @ [CHR 0x27] @ ''.''"

text \<open>
  Modelled from the spec: \<open>report_error\<close> of \<open>ASTValidationRule\<close>, which is not among
  the sources. A rule reports a problem to a shared sink rather than raising, and the
  errors are collected in one pass: the error is appended to the list.
\<close>

definition report_error :: "UniqueFragmentNamesRule \<Rightarrow> GraphQLError \<Rightarrow> UniqueFragmentNamesRule" where
  "report_error self error = self\<lparr>reported := reported self @ [error]\<rparr>"

definition UniqueFragmentNamesRule_init :: UniqueFragmentNamesRule where
  "UniqueFragmentNamesRule_init = \<lparr>known_fragment_names = Map.empty, reported = []\<rparr>"

definition enter_operation_definition ::
  "UniqueFragmentNamesRule \<Rightarrow> visitor_action \<times> UniqueFragmentNamesRule"
where
  "enter_operation_definition self = (SKIP, self)"

definition enter_fragment_definition ::
  "UniqueFragmentNamesRule \<Rightarrow> FragmentDefinitionNode \<Rightarrow> visitor_action \<times> UniqueFragmentNamesRule"
where
  "enter_fragment_definition self node =
     (let fragment_name = name_value (fragment_def_name node) in
      case known_fragment_names self fragment_name of
        Some first \<Rightarrow>
          (SKIP, report_error self
             \<lparr>message = duplicate_fragment_name_message fragment_name,
              nodes = [first, fragment_def_name node]\<rparr>)
      | None \<Rightarrow>
          (SKIP, self\<lparr>known_fragment_names :=
                   (known_fragment_names self)(fragment_name \<mapsto> fragment_def_name node)\<rparr>))"

text \<open>
  Modelled from the spec: the visitor, which is not among the sources, calls the enter
  hook of each definition of a document in order; a hook that returns the skip value
  keeps it out of the children of the node, so no other hook of this rule runs.
\<close>

datatype definition_node =
    OperationDefinition
  | FragmentDefinition FragmentDefinitionNode

fun visit_definitions ::
  "UniqueFragmentNamesRule \<Rightarrow> definition_node list \<Rightarrow> UniqueFragmentNamesRule"
where
  "visit_definitions self [] = self"
| "visit_definitions self (OperationDefinition # ds) =
     visit_definitions (snd (enter_operation_definition self)) ds"
| "visit_definitions self (FragmentDefinition node # ds) =
     visit_definitions (snd (enter_fragment_definition self node)) ds"

section \<open>The lexer (graphql/language/lexer.py)\<close>

text \<open>
  Modelled from the spec: the lexer, the source and the syntax error
  (graphql/language/lexer.py, source.py, location.py and graphql/error/syntax_error.py)
  are not among the sources; only the tests of the lexer are
  (graphql/language/tests/test_lexer.py). The definitions of this section follow section
  4.1 of the specification. Where the specification and the tests differ, the tests
  decide: the default name of a source is \<open>GraphQL\<close>, and the caret line stands right
  under the line of the error, before the line that follows it.

  A Python string is a sequence of code points, and the positions of a token count code
  points (the tests place the name after a byte order mark and a space at 2): a text is
  a list of natural numbers, and \<open>ustr\<close> reads an ASCII literal as one.
\<close>

type_synonym ustring = "nat list"

definition ustr :: "string \<Rightarrow> ustring" where
  "ustr s = map of_char s"

record Source =
  body :: ustring
  source_name :: ustring

definition Source_init :: "ustring \<Rightarrow> Source" where
  "Source_init s = \<lparr>body = s, source_name = ustr ''GraphQL''\<rparr>"

text \<open>Modelled from the spec: the kinds of token. \<open>INT\<close> is reserved by HOL, hence \<open>INT_kind\<close>.\<close>

datatype TokenKind =
    EOF | BANG | DOLLAR | PAREN_L | PAREN_R | SPREAD | COLON | EQUALS | AT
  | BRACKET_L | BRACKET_R | BRACE_L | PIPE | BRACE_R
  | NAME | INT_kind | FLOAT | STRING | COMMENT

text \<open>
  Modelled from the spec: a token: its kind, the half-open range \<open>[tok_start, tok_end)\<close> of its text in the
  body, and its value, present for names, numbers and strings only.
\<close>

record Token =
  tok_kind :: TokenKind
  tok_start :: nat
  tok_end :: nat
  tok_value :: "ustring option"

record GraphQLSyntaxError =
  syntax_message :: ustring
  syntax_position :: nat
  syntax_line :: nat
  syntax_column :: nat

subsection \<open>Rendering a syntax error\<close>

function show_nat :: "nat \<Rightarrow> ustring" where
  "show_nat n = (if n < 10 then [48 + n] else show_nat (n div 10) @ [48 + n mod 10])"
  by pat_completeness auto
termination
  by (relation "measure id") auto

declare show_nat.simps [simp del]

text \<open>Modelled from the spec: a number in upper-case hexadecimal digits.\<close>

definition hex_digit :: "nat \<Rightarrow> nat" where
  "hex_digit d = (if d < 10 then 48 + d else 55 + d)"

function hex_digits :: "nat \<Rightarrow> ustring" where
  "hex_digits n =
     (if n < 16 then [hex_digit n] else hex_digits (n div 16) @ [hex_digit (n mod 16)])"
  by pat_completeness auto
termination
  by (relation "measure id") auto

declare hex_digits.simps [simp del]

text \<open>
  Modelled from the spec: a character in a message: a printable ASCII character stands
  between double quotes as it is, any other character as \<open>\uXXXX\<close>, its code in
  upper-case hexadecimal digits padded with zeros to four, and the end of the input
  as \<open><EOF>\<close>.
\<close>

definition print_char_code :: "nat option \<Rightarrow> ustring" where
  "print_char_code code =
     (case code of
        None \<Rightarrow> ustr ''<EOF>''
      | Some c \<Rightarrow>
          if 32 \<le> c \<and> c < 127 then [34, c, 34]
          else
            (let digits = hex_digits c
             in [34, 92, 117] @ replicate (4 - length digits) 48 @ digits @ [34]))"

text \<open>
  Modelled from the spec: line and column of a position, both from 1. A line feed, a carriage return, and a
  carriage return followed by a line feed each end one line.
\<close>

fun location_from :: "ustring \<Rightarrow> nat \<Rightarrow> nat \<Rightarrow> nat \<times> nat" where
  "location_from [] line col = (line, col)"
| "location_from (c # cs) line col =
     (if c = 10 then location_from cs (line + 1) 1
      else if c = 13 then
        (if take 1 cs = [10] then location_from cs line col
         else location_from cs (line + 1) 1)
      else location_from cs line (col + 1))"

definition get_location :: "ustring \<Rightarrow> nat \<Rightarrow> nat \<times> nat" where
  "get_location b position = location_from (take position b) 1 1"

text \<open>Modelled from the spec: the lines of a text; nothing follows the last line terminator.\<close>

fun lines_from :: "ustring \<Rightarrow> ustring \<Rightarrow> ustring list" where
  "lines_from [] cur = (if cur = [] then [] else [cur])"
| "lines_from (c # cs) cur =
     (if c = 10 then cur # lines_from cs []
      else if c = 13 then
        (if take 1 cs = [10] then lines_from cs cur else cur # lines_from cs [])
      else lines_from cs (cur @ [c]))"

definition split_lines :: "ustring \<Rightarrow> ustring list" where
  "split_lines b = lines_from b []"

text \<open>
  Modelled from the spec: one line of context: the number of the line, right-aligned to \<open>pad_len\<close>, a colon and
  a space, the line. A line number outside the text gives nothing.
\<close>

definition context_line :: "ustring list \<Rightarrow> nat \<Rightarrow> nat \<Rightarrow> ustring" where
  "context_line ls pad_len n =
     (if 1 \<le> n \<and> n \<le> length ls
      then replicate (pad_len - length (show_nat n)) 32 @ show_nat n @ [58, 32]
             @ ls ! (n - 1) @ [10]
      else [])"

text \<open>
  Modelled from the spec: the snippet: the line before the error, the line of the error with the caret line
  under it, the line after. The numbers are padded to the width of the largest of them;
  the caret line is the same prefix in spaces, then a space for each column before the
  error.
\<close>

definition highlight_source_at_location :: "ustring \<Rightarrow> nat \<Rightarrow> nat \<Rightarrow> ustring" where
  "highlight_source_at_location b line column =
     (let ls = split_lines b;
          pad_len = length (show_nat (line + 1))
      in (if 2 \<le> line then context_line ls pad_len (line - 1) else [])
         @ (if line \<le> length ls
            then context_line ls pad_len line @ replicate (1 + pad_len + column) 32 @ [94, 10]
            else [])
         @ context_line ls pad_len (line + 1))"

definition syntax_error :: "Source \<Rightarrow> nat \<Rightarrow> ustring \<Rightarrow> GraphQLSyntaxError" where
  "syntax_error src position description =
     (let (line, column) = get_location (body src) position
      in \<lparr>syntax_message =
            ustr ''Syntax Error '' @ source_name src @ ustr '' ('' @ show_nat line
              @ ustr '':'' @ show_nat column @ ustr '') '' @ description @ [10, 10]
              @ highlight_source_at_location (body src) line column,
          syntax_position = position, syntax_line = line, syntax_column = column\<rparr>)"

subsection \<open>Scanning\<close>

text \<open>
  Modelled from the spec: the skip phase: the number of ignored code points at the head of the input. The byte
  order mark, tab, space, line feed, carriage return and comma are ignored, and so is a
  comment, from \<open>#\<close> to the end of its line (\<open>in_comment\<close>).
\<close>

definition is_ignored :: "nat \<Rightarrow> bool" where
  "is_ignored c = (c = 65279 \<or> c = 9 \<or> c = 32 \<or> c = 10 \<or> c = 13 \<or> c = 44)"

fun skip_ignored :: "bool \<Rightarrow> ustring \<Rightarrow> nat" where
  "skip_ignored in_comment [] = 0"
| "skip_ignored in_comment (c # cs) =
     (if in_comment then
        (if c = 10 \<or> c = 13 then Suc (skip_ignored False cs)
         else Suc (skip_ignored True cs))
      else if is_ignored c then Suc (skip_ignored False cs)
      else if c = 35 then Suc (skip_ignored True cs)
      else 0)"

definition punctuation :: "nat \<Rightarrow> TokenKind option" where
  "punctuation c =
     (if c = 33 then Some BANG else if c = 36 then Some DOLLAR
      else if c = 40 then Some PAREN_L else if c = 41 then Some PAREN_R
      else if c = 58 then Some COLON else if c = 61 then Some EQUALS
      else if c = 64 then Some AT else if c = 91 then Some BRACKET_L
      else if c = 93 then Some BRACKET_R else if c = 123 then Some BRACE_L
      else if c = 124 then Some PIPE else if c = 125 then Some BRACE_R
      else None)"

definition is_digit :: "nat \<Rightarrow> bool" where
  "is_digit c = (48 \<le> c \<and> c \<le> 57)"

definition is_name_start :: "nat \<Rightarrow> bool" where
  "is_name_start c = (c = 95 \<or> (65 \<le> c \<and> c \<le> 90) \<or> (97 \<le> c \<and> c \<le> 122))"

definition is_name_continue :: "nat \<Rightarrow> bool" where
  "is_name_continue c = (is_name_start c \<or> is_digit c)"

text \<open>Modelled from the spec: a name: the longest run of name characters; its value is the text matched.\<close>

definition read_name :: "ustring \<Rightarrow> ustring" where
  "read_name cs = takeWhile is_name_continue cs"

text \<open>
  Modelled from the spec: a scanner reads the head of the input: it returns the text it matched, or the offset
  and the description of an error. \<open>scan_seq\<close> runs one scanner after another.
\<close>

type_synonym scanner = "ustring \<Rightarrow> (nat \<times> ustring) + ustring"

definition scan_seq :: "scanner \<Rightarrow> scanner \<Rightarrow> scanner" where
  "scan_seq p q cs =
     (case p cs of
        Inl err \<Rightarrow> Inl err
      | Inr m \<Rightarrow>
          (case q (drop (length m) cs) of
             Inl (off, description) \<Rightarrow> Inl (length m + off, description)
           | Inr m' \<Rightarrow> Inr (m @ m')))"

definition expected_digit :: "nat option \<Rightarrow> ustring" where
  "expected_digit code =
     ustr ''Invalid number, expected digit but got: '' @ print_char_code code @ ustr ''.''"

definition unexpected_digit :: "nat \<Rightarrow> ustring" where
  "unexpected_digit c =
     ustr ''Invalid number, unexpected digit after 0: '' @ print_char_code (Some c) @ ustr ''.''"

text \<open>Modelled from the spec: one or more digits.\<close>

definition read_digits :: scanner where
  "read_digits cs =
     (case cs of
        [] \<Rightarrow> Inl (0, expected_digit None)
      | c # rest \<Rightarrow>
          if is_digit c then Inr (takeWhile is_digit cs) else Inl (0, expected_digit (Some c)))"

text \<open>Modelled from the spec: the optional minus sign.\<close>

definition read_sign :: scanner where
  "read_sign cs = (if take 1 cs = [45] then Inr [45] else Inr [])"

text \<open>
  Modelled from the spec: the integer part: a single \<open>0\<close>, which no digit may follow, or a run of digits.
\<close>

definition read_int_part :: scanner where
  "read_int_part cs =
     (if take 1 cs = [48] then
        (case drop 1 cs of
           [] \<Rightarrow> Inr [48]
         | d # rest \<Rightarrow> if is_digit d then Inl (1, unexpected_digit d) else Inr [48])
      else read_digits cs)"

text \<open>Modelled from the spec: the optional fraction: a point and one or more digits.\<close>

definition read_fraction :: scanner where
  "read_fraction cs =
     (if take 1 cs = [46] then scan_seq (\<lambda>cs. Inr [46]) read_digits cs else Inr [])"

text \<open>Modelled from the spec: the optional exponent: \<open>e\<close> or \<open>E\<close>, an optional sign, one or more digits.\<close>

definition read_exponent_sign :: scanner where
  "read_exponent_sign cs =
     (if take 1 cs = [43] \<or> take 1 cs = [45] then Inr (take 1 cs) else Inr [])"

definition read_exponent :: scanner where
  "read_exponent cs =
     (if take 1 cs = [69] \<or> take 1 cs = [101]
      then scan_seq (\<lambda>cs. Inr (take 1 cs)) (scan_seq read_exponent_sign read_digits) cs
      else Inr [])"

text \<open>
  Modelled from the spec: a number: its value is the text matched, sign and all; a fraction or an exponent makes
  it a \<open>FLOAT\<close>.
\<close>

definition read_number :: "ustring \<Rightarrow> (nat \<times> ustring) + (ustring \<times> bool)" where
  "read_number cs =
     (case scan_seq read_sign read_int_part cs of
        Inl err \<Rightarrow> Inl err
      | Inr whole \<Rightarrow>
          (case scan_seq read_fraction read_exponent (drop (length whole) cs) of
             Inl (off, description) \<Rightarrow> Inl (length whole + off, description)
           | Inr rest \<Rightarrow> Inr (whole @ rest, rest \<noteq> [])))"

text \<open>Modelled from the spec: the escapes of one character, and the four hexadecimal digits of \<open>\u\<close>.\<close>

definition escaped_char :: "nat \<Rightarrow> nat option" where
  "escaped_char e =
     (if e = 34 then Some 34 else if e = 92 then Some 92 else if e = 47 then Some 47
      else if e = 98 then Some 8 else if e = 102 then Some 12 else if e = 110 then Some 10
      else if e = 114 then Some 13 else if e = 116 then Some 9 else None)"

definition hex_value :: "nat \<Rightarrow> nat option" where
  "hex_value c =
     (if 48 \<le> c \<and> c \<le> 57 then Some (c - 48)
      else if 65 \<le> c \<and> c \<le> 70 then Some (c - 55)
      else if 97 \<le> c \<and> c \<le> 102 then Some (c - 87)
      else None)"

definition uni_char_code :: "ustring \<Rightarrow> nat option" where
  "uni_char_code hs =
     (case map hex_value hs of
        [Some a, Some b, Some c, Some d] \<Rightarrow> Some (4096 * a + 256 * b + 16 * c + d)
      | _ \<Rightarrow> None)"

definition shift ::
  "nat \<Rightarrow> ustring \<Rightarrow> (nat \<times> ustring) + (nat \<times> ustring) \<Rightarrow> (nat \<times> ustring) + (nat \<times> ustring)"
where
  "shift k v r =
     (case r of
        Inl (off, description) \<Rightarrow> Inl (k + off, description)
      | Inr (n, w) \<Rightarrow> Inr (k + n, v @ w))"

text \<open>
  Modelled from the spec: the characters of a string after its opening quote: the number of code points read, the
  closing quote included, and the decoded value; or the offset and description of an
  error.
\<close>

fun read_string_chars :: "ustring \<Rightarrow> (nat \<times> ustring) + (nat \<times> ustring)" where
  "read_string_chars [] = Inl (0, ustr ''Unterminated string'')"
| "read_string_chars (c # cs) =
     (if c = 34 then Inr (1, [])
      else if c = 10 \<or> c = 13 then Inl (0, ustr ''Unterminated string'')
      else if c < 32 \<and> c \<noteq> 9 then
        Inl (0, ustr ''Invalid character within String: '' @ print_char_code (Some c)
                  @ ustr ''.'')
      else if c = 92 then
        (case cs of
           [] \<Rightarrow> Inl (1, ustr ''Unterminated string'')
         | e # rest \<Rightarrow>
             (case escaped_char e of
                Some d \<Rightarrow> shift 2 [d] (read_string_chars rest)
              | None \<Rightarrow>
                  if e = 117 then
                    (case uni_char_code (take 4 rest) of
                       Some u \<Rightarrow> shift 6 [u] (read_string_chars (drop 4 rest))
                     | None \<Rightarrow>
                         Inl (1, ustr ''Invalid character escape sequence: '' @ [92, 117]
                                   @ take 4 rest @ ustr ''.''))
                  else
                    Inl (1, ustr ''Invalid character escape sequence: '' @ [92, e]
                              @ ustr ''.'')))
      else shift 1 [c] (read_string_chars cs))"

definition unexpected_character :: "nat \<Rightarrow> ustring" where
  "unexpected_character c =
     ustr ''Unexpected character '' @ print_char_code (Some c) @ ustr ''.''"

text \<open>Modelled from the spec: \<open>read_token source from_position\<close>: the token that starts at or after the position.\<close>

definition read_token :: "Source \<Rightarrow> nat \<Rightarrow> GraphQLSyntaxError + Token" where
  "read_token src from_position =
     (let position = from_position + skip_ignored False (drop from_position (body src));
          cs = drop position (body src)
      in case cs of
           [] \<Rightarrow> Inr \<lparr>tok_kind = EOF, tok_start = position, tok_end = position,
                       tok_value = None\<rparr>
         | c # rest \<Rightarrow>
             if c < 32 \<and> c \<noteq> 9 \<and> c \<noteq> 10 \<and> c \<noteq> 13 then
               Inl (syntax_error src position
                      (ustr ''Invalid character '' @ print_char_code (Some c) @ ustr ''.''))
             else
               (case punctuation c of
                  Some k \<Rightarrow> Inr \<lparr>tok_kind = k, tok_start = position,
                                  tok_end = position + 1, tok_value = None\<rparr>
                | None \<Rightarrow>
                    if c = 46 then
                      (if take 2 rest = [46, 46]
                       then Inr \<lparr>tok_kind = SPREAD, tok_start = position,
                                  tok_end = position + 3, tok_value = None\<rparr>
                       else Inl (syntax_error src position (unexpected_character c)))
                    else if is_name_start c then
                      (let v = read_name cs
                       in Inr \<lparr>tok_kind = NAME, tok_start = position,
                                tok_end = position + length v, tok_value = Some v\<rparr>)
                    else if c = 45 \<or> is_digit c then
                      (case read_number cs of
                         Inl (off, description) \<Rightarrow>
                           Inl (syntax_error src (position + off) description)
                       | Inr (v, is_float) \<Rightarrow>
                           Inr \<lparr>tok_kind = (if is_float then FLOAT else INT_kind),
                                tok_start = position, tok_end = position + length v,
                                tok_value = Some v\<rparr>)
                    else if c = 34 then
                      (case read_string_chars rest of
                         Inl (off, description) \<Rightarrow>
                           Inl (syntax_error src (position + 1 + off) description)
                       | Inr (n, v) \<Rightarrow>
                           Inr \<lparr>tok_kind = STRING, tok_start = position,
                                tok_end = position + 1 + n, tok_value = Some v\<rparr>)
                    else Inl (syntax_error src position (unexpected_character c))))"

text \<open>
  Modelled from the spec: the lexer is a cursor over a source: \<open>next_token\<close> reads the token after the last one
  and moves the cursor past it.
\<close>

record Lexer =
  lexer_source :: Source
  prev_position :: nat

definition Lexer_init :: "Source \<Rightarrow> Lexer" where
  "Lexer_init src = \<lparr>lexer_source = src, prev_position = 0\<rparr>"

definition next_token :: "Lexer \<Rightarrow> GraphQLSyntaxError + Token \<times> Lexer" where
  "next_token lexer =
     (case read_token (lexer_source lexer) (prev_position lexer) of
        Inl e \<Rightarrow> Inl e
      | Inr token \<Rightarrow> Inr (token, lexer\<lparr>prev_position := tok_end token\<rparr>))"

text \<open>Modelled from the spec: \<open>lex_one\<close> of the tests: the first token of a text.\<close>

definition lex_one :: "ustring \<Rightarrow> GraphQLSyntaxError + Token" where
  "lex_one s =
     (case next_token (Lexer_init (Source_init s)) of
        Inl e \<Rightarrow> Inl e
      | Inr (token, lexer) \<Rightarrow> Inr token)"
section \<open>Specification vocabulary for the type map\<close>

subsection \<open>Reachability\<close>

text \<open>
  The named types a named type refers to directly: the members of a union, the
  interfaces of an object type, and for each field the types of its arguments and its
  own type, each without its wrappers. A type is reachable from the roots when it is the
  named type of a root or a type referred to by a reachable type.
\<close>

definition field_refs :: "GraphQLField \<Rightarrow> ref list" where
  "field_refs f = map (\<lambda>(an, a). named_of (arg_type a)) (field_args f) @ [named_of (field_type f)]"

fun type_refs :: "type_def \<Rightarrow> ref list" where
  "type_refs (GraphQLScalarType n) = []"
| "type_refs (GraphQLEnumType n) = []"
| "type_refs (GraphQLUnionType n ts) = ts"
| "type_refs (GraphQLObjectType n fm is) = is @ concat (map (\<lambda>(fn, f). field_refs f) fm)"
| "type_refs (GraphQLInterfaceType n fm) = concat (map (\<lambda>(fn, f). field_refs f) fm)"
| "type_refs (GraphQLInputObjectType n fm) = map (\<lambda>(fn, f). named_of (input_field_type f)) fm"

inductive_set reachable :: "heap \<Rightarrow> gtype option list \<Rightarrow> ref set"
  for h :: heap and types :: "gtype option list"
where
  root: "Some t \<in> set types \<Longrightarrow> named_of t \<in> reachable h types"
| step: "r \<in> reachable h types \<Longrightarrow> deref h r = Some d \<Longrightarrow> s \<in> set (type_refs d)
           \<Longrightarrow> s \<in> reachable h types"

subsection \<open>The map while it is built\<close>

text \<open>
  \<open>registered h m r\<close>: the type \<open>r\<close> is in the map under its own name.
  \<open>map_inv\<close>: the names of the map are distinct, and every entry is a type of the store
  under its own name. \<open>closed h m r\<close>: every type \<open>r\<close> refers to is registered.
  \<open>grows h m m'\<close>: \<open>m'\<close> is \<open>m\<close> with entries added at the end, each of them closed
  in \<open>m'\<close>. \<open>rec_ok\<close> is what the traversal needs of its recursive call.
\<close>

definition registered :: "heap \<Rightarrow> type_map \<Rightarrow> ref \<Rightarrow> bool" where
  "registered h m r = (case deref h r of None \<Rightarrow> False | Some d \<Rightarrow> map_of m (type_name d) = Some r)"

definition map_inv :: "heap \<Rightarrow> type_map \<Rightarrow> bool" where
  "map_inv h m = (distinct (map fst m) \<and> (\<forall>(n, r) \<in> set m. \<exists>d. deref h r = Some d \<and> type_name d = n))"

definition closed :: "heap \<Rightarrow> type_map \<Rightarrow> ref \<Rightarrow> bool" where
  "closed h m r = (\<forall>d. deref h r = Some d \<longrightarrow> (\<forall>s \<in> set (type_refs d). registered h m s))"

definition grows :: "heap \<Rightarrow> type_map \<Rightarrow> type_map \<Rightarrow> bool" where
  "grows h m m' = (\<exists>ext. m' = m @ ext \<and> (\<forall>(n, r) \<in> set ext. closed h m' r))"

definition rec_ok :: "heap \<Rightarrow> (type_map \<Rightarrow> gtype option \<Rightarrow> error + type_map) \<Rightarrow> bool" where
  "rec_ok h rec = (\<forall>m t m'. map_inv h m \<longrightarrow> rec m (Some t) = Inr m' \<longrightarrow>
      map_inv h m' \<and> grows h m m' \<and> registered h m' (named_of t))"

subsection \<open>The recursion budget\<close>

text \<open>
  \<open>unvisited h m\<close> counts the names of the store that the map does not hold yet;
  a budget of that many nested insertions is enough (\<open>budget\<close>, \<open>rec_fuel\<close>).
  \<open>agrees rec rec'\<close>: wherever \<open>rec\<close> does not run out of budget, \<open>rec'\<close> returns
  the same.
\<close>

definition unvisited :: "heap \<Rightarrow> type_map \<Rightarrow> nat" where
  "unvisited h m = card (type_name ` set h - fst ` set m)"

definition budget :: "heap \<Rightarrow> nat \<Rightarrow> type_map \<Rightarrow> bool" where
  "budget h n m = (map_inv h m \<and> unvisited h m \<le> n)"

definition rec_fuel :: "heap \<Rightarrow> nat \<Rightarrow> (type_map \<Rightarrow> gtype option \<Rightarrow> error + type_map) \<Rightarrow> bool" where
  "rec_fuel h n rec = (rec_ok h rec \<and> (\<forall>m t. budget h n m \<longrightarrow> rec m t \<noteq> Inl OutOfFuel))"

definition agrees ::
  "(type_map \<Rightarrow> gtype option \<Rightarrow> error + type_map) \<Rightarrow>
   (type_map \<Rightarrow> gtype option \<Rightarrow> error + type_map) \<Rightarrow> bool" where
  "agrees rec rec' = (\<forall>m t. rec m t \<noteq> Inl OutOfFuel \<longrightarrow> rec' m t = rec m t)"

subsection \<open>Implementers and queries\<close>

text \<open>
  The object types among \<open>vals\<close>, in order, once for each interface they list that is
  selected: by its name (\<open>implementers_named\<close>) or by being a given interface
  (\<open>implementers\<close>). \<open>lookup_list\<close> reads a \<open>defaultdict(list)\<close> without creating
  an entry.
\<close>

definition name_is :: "heap \<Rightarrow> string \<Rightarrow> ref \<Rightarrow> bool" where
  "name_is h nm i = (case deref h i of None \<Rightarrow> False | Some d \<Rightarrow> type_name d = nm)"

definition listings :: "heap \<Rightarrow> (ref \<Rightarrow> bool) \<Rightarrow> ref \<Rightarrow> ref list" where
  "listings h sel r =
     (case deref h r of
        Some (GraphQLObjectType n fm ifs) \<Rightarrow> map (\<lambda>i. r) (filter sel ifs)
      | _ \<Rightarrow> [])"

definition implementers_named :: "heap \<Rightarrow> ref list \<Rightarrow> string \<Rightarrow> ref list" where
  "implementers_named h vals nm = concat (map (listings h (name_is h nm)) vals)"


definition lookup_list :: "(string \<rightharpoonup> ref list) \<Rightarrow> string \<Rightarrow> ref list" where
  "lookup_list impl nm = (case impl nm of None \<Rightarrow> [] | Some l \<Rightarrow> l)"

text \<open>
  A sequence of \<open>is_possible_type\<close> calls on one type map, each with an abstract
  type and a candidate; a call that fails leaves the map as it was.
\<close>

fun run_queries :: "heap \<Rightarrow> GraphQLTypeMap \<Rightarrow> (ref \<times> ref) list \<Rightarrow> GraphQLTypeMap" where
  "run_queries h self [] = self"
| "run_queries h self ((abstract_type, possible_type) # qs) =
     (case is_possible_type self h abstract_type possible_type of
        Inl e \<Rightarrow> run_queries h self qs
      | Inr (b, self') \<Rightarrow> run_queries h self' qs)"

subsection \<open>Conformance of a field\<close>


section \<open>Specification vocabulary for the rule on fragment names\<close>

text \<open>
  The name nodes of the fragment definitions of a document, in order; the first of them
  with a given value; and the errors expected of a document: one for each name node that
  has an earlier one of the same value, pairing the first such node with it.
\<close>

fun fragment_names :: "definition_node list \<Rightarrow> NameNode list" where
  "fragment_names [] = []"
| "fragment_names (OperationDefinition # ds) = fragment_names ds"
| "fragment_names (FragmentDefinition node # ds) = fragment_def_name node # fragment_names ds"

definition first_named :: "string \<Rightarrow> NameNode list \<Rightarrow> NameNode option" where
  "first_named n ns = find (\<lambda>k. name_value k = n) ns"

definition duplicate_error :: "NameNode \<Rightarrow> NameNode \<Rightarrow> GraphQLError" where
  "duplicate_error first dup =
     \<lparr>message = duplicate_fragment_name_message (name_value dup), nodes = [first, dup]\<rparr>"

definition expected_errors :: "NameNode list \<Rightarrow> GraphQLError list" where
  "expected_errors ns =
     concat (map (\<lambda>i. case first_named (name_value (ns ! i)) (take i ns) of
                          None \<Rightarrow> []
                        | Some first \<Rightarrow> [duplicate_error first (ns ! i)])
                 [0..<length ns])"

section \<open>Specification vocabulary for the lexer\<close>

text \<open>
  \<open>slice b i j\<close> is the Python slice \<open>b[i:j]\<close> for \<open>i \<le> j\<close>. \<open>escape_decode\<close> decodes
  the text of a string literal on its own: it strips the two quotes and resolves the
  escapes of one character and the \<open>\uXXXX\<close> sequences of what is between them.
  \<open>scans_prefix\<close> says that what a scanner matched is the head of its input.
\<close>

definition slice :: "ustring \<Rightarrow> nat \<Rightarrow> nat \<Rightarrow> ustring" where
  "slice b i j = take (j - i) (drop i b)"

fun decode_escapes :: "ustring \<Rightarrow> ustring option" where
  "decode_escapes [] = Some []"
| "decode_escapes (c # cs) =
     (if c = 92 then
        (case cs of
           [] \<Rightarrow> None
         | e # rest \<Rightarrow>
             (case escaped_char e of
                Some d \<Rightarrow> map_option ((#) d) (decode_escapes rest)
              | None \<Rightarrow>
                  if e = 117 then
                    (case uni_char_code (take 4 rest) of
                       Some u \<Rightarrow> map_option ((#) u) (decode_escapes (drop 4 rest))
                     | None \<Rightarrow> None)
                  else None))
      else map_option ((#) c) (decode_escapes cs))"

definition escape_decode :: "ustring \<Rightarrow> ustring option" where
  "escape_decode raw =
     (if 2 \<le> length raw \<and> hd raw = 34 \<and> last raw = 34
      then decode_escapes (butlast (tl raw)) else None)"

definition scans_prefix :: "scanner \<Rightarrow> bool" where
  "scans_prefix p = (\<forall>cs m. p cs = Inr m \<longrightarrow> m = take (length m) cs)"

section \<open>Example schemas\<close>

text \<open>
  Two object types that refer to each other: \<open>A.b : B\<close> and \<open>B.a(n: Int) : A!\<close>.
\<close>

definition cyclic_heap :: heap where
  "cyclic_heap =
     [GraphQLObjectType ''A'' [(''b'', \<lparr>field_type = Named 1, field_args = []\<rparr>)] [],
      GraphQLObjectType ''B''
        [(''a'', \<lparr>field_type = GraphQLNonNull (Named 0),
                  field_args = [(''n'', \<lparr>arg_type = Named 2\<rparr>)]\<rparr>)] [],
      GraphQLScalarType ''Int'']"

text \<open>Two distinct type definitions that share the name \<open>A\<close>.\<close>

definition dup_heap :: heap where
  "dup_heap = [GraphQLScalarType ''A'', GraphQLEnumType ''A'']"

text \<open>
  A schema with an interface \<open>Pet\<close> implemented by \<open>Cat\<close> and \<open>Dog\<close>, a union of
  the two, and an interface \<open>Lonely\<close> that no object type lists. \<open>Dog.name\<close> declares
  an argument \<open>loud\<close> beyond those of \<open>Pet.name\<close>; its type is a list, not a
  non-null. \<open>schema_map\<close> is the type map built from the root \<open>Query\<close>.
\<close>

definition schema_heap :: heap where
  "schema_heap =
     [GraphQLObjectType ''Query''
        [(''pet'', \<lparr>field_type = Named 1, field_args = []\<rparr>),
         (''any'', \<lparr>field_type = GraphQLList (Named 4), field_args = []\<rparr>),
         (''thing'', \<lparr>field_type = Named 5, field_args = []\<rparr>)] [],
      GraphQLInterfaceType ''Pet''
        [(''name'', \<lparr>field_type = Named 6,
                     field_args = [(''full'', \<lparr>arg_type = Named 7\<rparr>)]\<rparr>)],
      GraphQLObjectType ''Dog''
        [(''name'', \<lparr>field_type = Named 6,
                     field_args = [(''full'', \<lparr>arg_type = Named 7\<rparr>),
                                   (''loud'', \<lparr>arg_type = GraphQLList (GraphQLNonNull (Named 7))\<rparr>)]\<rparr>)]
        [1],
      GraphQLObjectType ''Cat''
        [(''name'', \<lparr>field_type = Named 6,
                     field_args = [(''full'', \<lparr>arg_type = Named 7\<rparr>)]\<rparr>)] [1],
      GraphQLUnionType ''CatOrDog'' [3, 2],
      GraphQLInterfaceType ''Lonely'' [(''id'', \<lparr>field_type = Named 6, field_args = []\<rparr>)],
      GraphQLScalarType ''String'',
      GraphQLScalarType ''Boolean'']"

definition schema_map :: GraphQLTypeMap where
  "schema_map =
     \<lparr>entries = [(''Query'', 0), (''Pet'', 1), (''Boolean'', 7), (''String'', 6),
                 (''CatOrDog'', 4), (''Cat'', 3), (''Dog'', 2), (''Lonely'', 5)],
      possible_type_map = Map.empty,
      implementations = [''Pet'' \<mapsto> [3, 2]]\<rparr>"

text \<open>
  The same store with one more object: a second union named \<open>CatOrDog\<close>, with
  \<open>Dog\<close> as its only member. No type refers to it, so the type map built from
  \<open>Query\<close> is \<open>schema_map\<close> again. \<open>clashed_map\<close> is \<open>schema_map\<close> after a call of
  \<open>is_possible_type\<close> about that second union.
\<close>

definition clash_heap :: heap where
  "clash_heap = schema_heap @ [GraphQLUnionType ''CatOrDog'' [2]]"

definition clashed_map :: GraphQLTypeMap where
  "clashed_map = schema_map\<lparr>possible_type_map := [''CatOrDog'' \<mapsto> {''Dog''}]\<rparr>"


text \<open>
  A document with three fragment definitions named \<open>f\<close>, an operation and a
  fragment \<open>g\<close>.
\<close>

definition frag_doc :: "definition_node list" where
  "frag_doc =
     [FragmentDefinition \<lparr>fragment_def_name = \<lparr>name_value = ''f'', name_loc = 9\<rparr>\<rparr>,
      OperationDefinition,
      FragmentDefinition \<lparr>fragment_def_name = \<lparr>name_value = ''f'', name_loc = 40\<rparr>\<rparr>,
      FragmentDefinition \<lparr>fragment_def_name = \<lparr>name_value = ''g'', name_loc = 70\<rparr>\<rparr>,
      FragmentDefinition \<lparr>fragment_def_name = \<lparr>name_value = ''f'', name_loc = 99\<rparr>\<rparr>]"

text \<open>
  A source whose first token is a string with two escapes, and the source of the
  test \<open>test_errors_respect_whitespace\<close> with the error the test expects.
\<close>

definition string_source :: ustring where
  "string_source = ustr ''  \"a'' @ [92] @ ustr ''n'' @ [92] @ ustr ''u0041\" x''"

definition question_source :: ustring where
  "question_source = ustr ''\<newline>\<newline>    ?\<newline>\<newline>\<newline>''"

definition question_error :: GraphQLSyntaxError where
  "question_error =
     \<lparr>syntax_message =
        ustr ''Syntax Error GraphQL (3:5) Unexpected character \"?\".\<newline>\<newline>2: \<newline>3:     ?\<newline>       ^\<newline>4: \<newline>'',
      syntax_position = 6, syntax_line = 3, syntax_column = 5\<rparr>"

section \<open>Properties of the reducer\<close>

lemma fold_err_chain:
  assumes "fold_err f xs s = Inr s'"
    and "P s"
    and step: "\<And>x a b. x \<in> set xs \<Longrightarrow> P a \<Longrightarrow> f x a = Inr b \<Longrightarrow> P b \<and> G a b \<and> Q x b"
    and refl: "\<And>a. P a \<Longrightarrow> G a a"
    and trans: "\<And>a b c. G a b \<Longrightarrow> G b c \<Longrightarrow> G a c"
    and mono: "\<And>x a b. Q x a \<Longrightarrow> G a b \<Longrightarrow> Q x b"
  shows "P s' \<and> G s s' \<and> (\<forall>x\<in>set xs. Q x s')"
  using assms(1,2,3)
proof (induction xs arbitrary: s)
  case Nil
  then show ?case by (simp add: refl)
next
  case (Cons x xs)
  from Cons.prems(1) obtain s1 where s1: "f x s = Inr s1" and rest: "fold_err f xs s1 = Inr s'"
    by (auto split: sum.splits)
  have a: "P s1 \<and> G s s1 \<and> Q x s1"
    using Cons.prems(3)[of x s s1] Cons.prems(2) s1 by simp
  have b: "P s' \<and> G s1 s' \<and> (\<forall>y\<in>set xs. Q y s')"
  proof (rule Cons.IH[OF rest])
    show "P s1" using a by simp
    show "\<And>y a b. y \<in> set xs \<Longrightarrow> P a \<Longrightarrow> f y a = Inr b \<Longrightarrow> P b \<and> G a b \<and> Q y b"
      using Cons.prems(3) by (meson list.set_intros(2))
  qed
  show ?case using a b trans mono by auto
qed

lemma registered_mono: "registered h m r \<Longrightarrow> registered h (m @ ext) r"
  by (auto simp: registered_def split: option.splits)

lemma closed_mono: "closed h m r \<Longrightarrow> closed h (m @ ext) r"
  by (auto simp: closed_def registered_mono)

lemma registered_grows: "registered h m r \<Longrightarrow> grows h m m' \<Longrightarrow> registered h m' r"
  by (auto simp: grows_def registered_mono)

lemma grows_refl: "grows h m m"
  by (simp add: grows_def)

lemma grows_trans:
  assumes "grows h a b" "grows h b c"
  shows "grows h a c"
proof -
  from assms(1) obtain e1 where e1: "b = a @ e1" "\<forall>(n, r) \<in> set e1. closed h b r"
    by (auto simp: grows_def)
  from assms(2) obtain e2 where e2: "c = b @ e2" "\<forall>(n, r) \<in> set e2. closed h c r"
    by (auto simp: grows_def)
  have "\<forall>(n, r) \<in> set e1. closed h c r"
    using e1(2) e2(1) closed_mono by fastforce
  then have "c = a @ (e1 @ e2) \<and> (\<forall>(n, r) \<in> set (e1 @ e2). closed h c r)"
    using e1(1) e2 by auto
  then show ?thesis unfolding grows_def by blast
qed

lemma reduce_types_ok:
  assumes "rec_ok h rec" "map_inv h m" "reduce_types rec ts m = Inr m'"
  shows "map_inv h m' \<and> grows h m m' \<and> (\<forall>t\<in>set ts. registered h m' t)"
proof (rule fold_err_chain[where P="map_inv h" and G="grows h" and Q="\<lambda>t m. registered h m t"
        and f="\<lambda>t m. rec m (Some (Named t))"])
  show "fold_err (\<lambda>t m. rec m (Some (Named t))) ts m = Inr m'"
    using assms(3) by (simp add: reduce_types_def)
  show "map_inv h m" by fact
  show "\<And>x a b. x \<in> set ts \<Longrightarrow> map_inv h a \<Longrightarrow> rec a (Some (Named x)) = Inr b \<Longrightarrow>
      map_inv h b \<and> grows h a b \<and> registered h b x"
    using assms(1) unfolding rec_ok_def by fastforce
qed (auto intro: grows_refl grows_trans registered_grows)

lemma reduce_args_ok:
  assumes "rec_ok h rec" "map_inv h m" "reduce_args rec h tn fn as m = Inr m'"
  shows "map_inv h m' \<and> grows h m m' \<and> (\<forall>(an, a)\<in>set as. registered h m' (named_of (arg_type a)))"
proof -
  let ?f = "\<lambda>(arg_name, arg) m.
       if \<not> is_input_type h (arg_type arg)
       then Inl (ArgTypeMustBeInput tn fn arg_name (arg_type arg))
       else rec m (Some (arg_type arg))"
  have "map_inv h m' \<and> grows h m m' \<and> (\<forall>x\<in>set as. registered h m' (named_of (arg_type (snd x))))"
  proof (rule fold_err_chain[where P="map_inv h" and G="grows h"
        and Q="\<lambda>x m. registered h m (named_of (arg_type (snd x)))" and f="?f"])
    show "fold_err ?f as m = Inr m'"
      using assms(3) by (simp add: reduce_args_def)
    show "map_inv h m" by fact
    show "\<And>x a b. x \<in> set as \<Longrightarrow> map_inv h a \<Longrightarrow> ?f x a = Inr b \<Longrightarrow>
      map_inv h b \<and> grows h a b \<and> registered h b (named_of (arg_type (snd x)))"
      using assms(1) unfolding rec_ok_def by (fastforce split: if_splits prod.splits)
  qed (auto intro: grows_refl grows_trans registered_grows)
  then show ?thesis by auto
qed

lemma reduce_input_fields_ok:
  assumes "rec_ok h rec" "map_inv h m" "reduce_input_fields rec h tn fm m = Inr m'"
  shows "map_inv h m' \<and> grows h m m' \<and> (\<forall>(fn, f)\<in>set fm. registered h m' (named_of (input_field_type f)))"
proof -
  let ?f = "\<lambda>(field_name, field) m.
       if \<not> is_input_type h (input_field_type field)
       then Inl (FieldTypeMustBeInput tn field_name (input_field_type field))
       else rec m (Some (input_field_type field))"
  have "map_inv h m' \<and> grows h m m' \<and> (\<forall>x\<in>set fm. registered h m' (named_of (input_field_type (snd x))))"
  proof (rule fold_err_chain[where P="map_inv h" and G="grows h"
        and Q="\<lambda>x m. registered h m (named_of (input_field_type (snd x)))" and f="?f"])
    show "fold_err ?f fm m = Inr m'"
      using assms(3) by (simp add: reduce_input_fields_def)
    show "map_inv h m" by fact
    show "\<And>x a b. x \<in> set fm \<Longrightarrow> map_inv h a \<Longrightarrow> ?f x a = Inr b \<Longrightarrow>
      map_inv h b \<and> grows h a b \<and> registered h b (named_of (input_field_type (snd x)))"
      using assms(1) unfolding rec_ok_def by (fastforce split: if_splits prod.splits)
  qed (auto intro: grows_refl grows_trans registered_grows)
  then show ?thesis by auto
qed

lemma reduce_output_fields_ok:
  assumes "rec_ok h rec" "map_inv h m" "reduce_output_fields rec h tn fm m = Inr m'"
  shows "map_inv h m' \<and> grows h m m' \<and> (\<forall>(fn, f)\<in>set fm. \<forall>s\<in>set (field_refs f). registered h m' s)"
proof -
  let ?f = "\<lambda>(field_name, field) m.
       if \<not> is_output_type h (field_type field)
       then Inl (FieldTypeMustBeOutput tn field_name (field_type field))
       else
         (case reduce_args rec h tn field_name (field_args field) m of
            Inl e \<Rightarrow> Inl e
          | Inr m' \<Rightarrow> rec m' (Some (field_type field)))"
  have step: "map_inv h b \<and> grows h a b \<and> (\<forall>s\<in>set (field_refs (snd x)). registered h b s)"
    if "map_inv h a" "?f x a = Inr b" for x a b
  proof -
    obtain fn f where x: "x = (fn, f)" by (cases x)
    from that(2) x obtain m1 where
      m1: "reduce_args rec h tn fn (field_args f) a = Inr m1" and b: "rec m1 (Some (field_type f)) = Inr b"
      by (auto split: if_splits sum.splits)
    from reduce_args_ok[OF assms(1) that(1) m1]
    have 1: "map_inv h m1" "grows h a m1" "\<forall>(an, a)\<in>set (field_args f). registered h m1 (named_of (arg_type a))"
      by auto
    from assms(1) 1(1) b have 2: "map_inv h b" "grows h m1 b" "registered h b (named_of (field_type f))"
      unfolding rec_ok_def by blast+
    show ?thesis using 1 2 x
      by (auto simp: field_refs_def intro: grows_trans registered_grows)
  qed
  have "map_inv h m' \<and> grows h m m' \<and> (\<forall>x\<in>set fm. \<forall>s\<in>set (field_refs (snd x)). registered h m' s)"
  proof (rule fold_err_chain[where P="map_inv h" and G="grows h"
        and Q="\<lambda>x m. \<forall>s\<in>set (field_refs (snd x)). registered h m s" and f="?f"])
    show "fold_err ?f fm m = Inr m'"
      using assms(3) by (simp add: reduce_output_fields_def)
    show "map_inv h m" by fact
    show "\<And>x a b. x \<in> set fm \<Longrightarrow> map_inv h a \<Longrightarrow> ?f x a = Inr b \<Longrightarrow>
      map_inv h b \<and> grows h a b \<and> (\<forall>s\<in>set (field_refs (snd x)). registered h b s)"
      using step by blast
  qed (auto intro: grows_refl grows_trans registered_grows)
  then show ?thesis by auto
qed

lemma grows_insert:
  assumes "grows h (m @ [(n, r)]) m'" "closed h m' r"
  shows "grows h m m'"
proof -
  from assms(1) obtain e where e: "m' = (m @ [(n, r)]) @ e" "\<forall>(k, v) \<in> set e. closed h m' v"
    by (auto simp: grows_def)
  have "m' = m @ ((n, r) # e) \<and> (\<forall>(k, v) \<in> set ((n, r) # e). closed h m' v)"
    using e assms(2) by auto
  then show ?thesis unfolding grows_def by blast
qed

lemma map_inv_insert:
  assumes "map_inv h m" "deref h r = Some ty" "map_of m (type_name ty) = None"
  shows "map_inv h (m @ [(type_name ty, r)])"
  using assms by (auto simp: map_inv_def map_of_eq_None_iff)

lemma registered_insert:
  assumes "deref h r = Some ty" "map_of m (type_name ty) = None"
  shows "registered h (m @ [(type_name ty, r)]) r"
  using assms by (simp add: registered_def map_add_def)

lemma reducer_named_ok:
  assumes IH: "\<And>n. n < f \<Longrightarrow> rec_ok h (reducer n h)"
    and inv: "map_inv h m"
    and run: "reducer f h m (Some (Named r)) = Inr m'"
  shows "map_inv h m' \<and> grows h m m' \<and> registered h m' r"
proof -
  from run obtain ty where ty: "deref h r = Some ty"
    by (auto split: option.splits)
  show ?thesis
  proof (cases "map_of m (type_name ty)")
    case (Some r')
    with run ty have "r' = r" "m' = m" by (auto split: if_splits)
    with Some ty inv show ?thesis by (simp add: registered_def grows_refl)
  next
    case None
    with run ty obtain n where f: "f = Suc n"
      by (cases f) auto
    let ?m1 = "m @ [(type_name ty, r)]"
    have rec: "rec_ok h (\<lambda>m t. reducer n h m t)"
      using IH[of n] f by simp
    have inv1: "map_inv h ?m1" by (rule map_inv_insert[OF inv ty None])
    have reg1: "registered h ?m1 r" by (rule registered_insert[OF ty None])
    have core: "map_inv h m' \<and> grows h ?m1 m' \<and> closed h m' r"
    proof (cases ty)
      case (GraphQLScalarType nm)
      with run ty None f have "m' = ?m1" by simp
      with inv1 ty GraphQLScalarType show ?thesis by (simp add: grows_refl closed_def)
    next
      case (GraphQLEnumType nm)
      with run ty None f have "m' = ?m1" by simp
      with inv1 ty GraphQLEnumType show ?thesis by (simp add: grows_refl closed_def)
    next
      case (GraphQLUnionType nm ts)
      with run ty None f have "reduce_types (\<lambda>m t. reducer n h m t) ts ?m1 = Inr m'" by simp
      from reduce_types_ok[OF rec inv1 this] ty GraphQLUnionType
      show ?thesis by (simp add: closed_def)
    next
      case (GraphQLInterfaceType nm fm)
      with run ty None f
      have "reduce_output_fields (\<lambda>m t. reducer n h m t) h nm fm ?m1 = Inr m'" by simp
      from reduce_output_fields_ok[OF rec inv1 this] ty GraphQLInterfaceType
      show ?thesis by (fastforce simp: closed_def)
    next
      case (GraphQLInputObjectType nm fm)
      with run ty None f
      have "reduce_input_fields (\<lambda>m t. reducer n h m t) h nm fm ?m1 = Inr m'" by simp
      from reduce_input_fields_ok[OF rec inv1 this] ty GraphQLInputObjectType
      show ?thesis by (fastforce simp: closed_def)
    next
      case (GraphQLObjectType nm fm ifs)
      with run ty None f obtain m2 where
        m2: "reduce_types (\<lambda>m t. reducer n h m t) ifs ?m1 = Inr m2" and
        m': "reduce_output_fields (\<lambda>m t. reducer n h m t) h nm fm m2 = Inr m'"
        by (auto simp: Let_def split: sum.splits)
      from reduce_types_ok[OF rec inv1 m2]
      have a: "map_inv h m2" "grows h ?m1 m2" "\<forall>t\<in>set ifs. registered h m2 t" by auto
      from reduce_output_fields_ok[OF rec a(1) m']
      have b: "map_inv h m'" "grows h m2 m'"
        "\<forall>(fn, f)\<in>set fm. \<forall>s\<in>set (field_refs f). registered h m' s" by auto
      have "\<forall>t\<in>set ifs. registered h m' t"
        using a(3) b(2) registered_grows by blast
      with b ty GraphQLObjectType a(2) show ?thesis
        by (fastforce simp: closed_def intro: grows_trans)
    qed
    then show ?thesis
      using grows_insert[of h m "type_name ty" r m'] registered_grows[OF reg1] by blast
  qed
qed

lemma reducer_ok: "rec_ok h (reducer f h)"
proof (induction f rule: less_induct)
  case (less f)
  have "map_inv h m \<Longrightarrow> reducer f h m (Some t) = Inr m' \<Longrightarrow>
      map_inv h m' \<and> grows h m m' \<and> registered h m' (named_of t)" for m t m'
  proof (induction t)
    case (Named r)
    then show ?case using reducer_named_ok[of f h m r m'] less.IH by simp
  qed simp_all
  then show ?case unfolding rec_ok_def by blast
qed

lemma fold_err_never:
  assumes "P s"
    and "\<And>x a. x \<in> set xs \<Longrightarrow> P a \<Longrightarrow> f x a \<noteq> Inl e \<and> (\<forall>b. f x a = Inr b \<longrightarrow> P b)"
  shows "fold_err f xs s \<noteq> Inl e"
  using assms
proof (induction xs arbitrary: s)
  case Nil
  then show ?case by simp
next
  case (Cons x xs)
  show ?case
  proof (cases "f x s")
    case (Inl e')
    then show ?thesis using Cons.prems(2)[of x s] Cons.prems(1) by auto
  next
    case (Inr s1)
    have "P s1" using Cons.prems(2)[of x s] Cons.prems(1) Inr by auto
    then have "fold_err f xs s1 \<noteq> Inl e"
      using Cons.IH[of s1] Cons.prems(2) by (meson list.set_intros(2))
    then show ?thesis using Inr by simp
  qed
qed

lemma unvisited_grows: "grows h m m' \<Longrightarrow> unvisited h m' \<le> unvisited h m"
  unfolding unvisited_def grows_def
  by (auto intro!: card_mono)

lemma unvisited_insert:
  assumes "deref h r = Some ty" "map_of m (type_name ty) = None"
  shows "unvisited h (m @ [(type_name ty, r)]) < unvisited h m"
proof -
  have in_h: "type_name ty \<in> type_name ` set h"
    using assms(1) by (auto simp: deref_def split: if_splits)
  have notin: "type_name ty \<notin> fst ` set m"
    using assms(2) by (simp add: map_of_eq_None_iff)
  have "type_name ` set h - fst ` set (m @ [(type_name ty, r)])
          \<subset> type_name ` set h - fst ` set m"
    using in_h notin by auto
  then show ?thesis
    unfolding unvisited_def by (intro psubset_card_mono) auto
qed

lemma budget_grows: "budget h n m \<Longrightarrow> map_inv h m' \<Longrightarrow> grows h m m' \<Longrightarrow> budget h n m'"
  unfolding budget_def using unvisited_grows[of h m m'] by simp

lemma rec_fuel_step:
  assumes "rec_fuel h n rec" "budget h n a"
  shows "rec a (Some t) \<noteq> Inl OutOfFuel \<and> (\<forall>b. rec a (Some t) = Inr b \<longrightarrow> budget h n b)"
proof -
  have "budget h n b" if "rec a (Some t) = Inr b" for b
  proof -
    have "map_inv h b \<and> grows h a b"
      using assms that unfolding rec_fuel_def rec_ok_def budget_def by blast
    then show ?thesis using budget_grows[OF assms(2)] by blast
  qed
  then show ?thesis using assms unfolding rec_fuel_def by blast
qed

lemma reduce_types_fuel:
  assumes "rec_fuel h n rec" "budget h n m"
  shows "reduce_types rec ts m \<noteq> Inl OutOfFuel"
  unfolding reduce_types_def
  by (rule fold_err_never[where P="budget h n"]) (use assms rec_fuel_step in auto)

lemma reduce_args_fuel:
  assumes "rec_fuel h n rec" "budget h n m"
  shows "reduce_args rec h tn fn as m \<noteq> Inl OutOfFuel"
  unfolding reduce_args_def
  by (rule fold_err_never[where P="budget h n"])
     (use assms rec_fuel_step in \<open>auto split: prod.splits\<close>)

lemma reduce_input_fields_fuel:
  assumes "rec_fuel h n rec" "budget h n m"
  shows "reduce_input_fields rec h tn fm m \<noteq> Inl OutOfFuel"
  unfolding reduce_input_fields_def
  by (rule fold_err_never[where P="budget h n"])
     (use assms rec_fuel_step in \<open>auto split: prod.splits\<close>)

lemma reduce_args_budget:
  assumes "rec_fuel h n rec" "budget h n m" "reduce_args rec h tn fn as m = Inr m'"
  shows "budget h n m'"
  using reduce_args_ok[of h rec m tn fn as m'] assms budget_grows[OF assms(2)]
  unfolding rec_fuel_def budget_def by blast

lemma reduce_types_budget:
  assumes "rec_fuel h n rec" "budget h n m" "reduce_types rec ts m = Inr m'"
  shows "budget h n m'"
  using reduce_types_ok[of h rec m ts m'] assms budget_grows[OF assms(2)]
  unfolding rec_fuel_def budget_def by blast

lemma reduce_output_fields_fuel:
  assumes "rec_fuel h n rec" "budget h n m"
  shows "reduce_output_fields rec h tn fm m \<noteq> Inl OutOfFuel"
proof -
  let ?f = "\<lambda>(field_name, field) m.
       if \<not> is_output_type h (field_type field)
       then Inl (FieldTypeMustBeOutput tn field_name (field_type field))
       else
         (case reduce_args rec h tn field_name (field_args field) m of
            Inl e \<Rightarrow> Inl e
          | Inr m' \<Rightarrow> rec m' (Some (field_type field)))"
  have step: "?f x a \<noteq> Inl OutOfFuel \<and> (\<forall>b. ?f x a = Inr b \<longrightarrow> budget h n b)"
    if a: "budget h n a" for x a
  proof -
    obtain fn f where x: "x = (fn, f)" by (cases x)
    show ?thesis
    proof (cases "reduce_args rec h tn fn (field_args f) a")
      case (Inl e)
      then have "e \<noteq> OutOfFuel" using reduce_args_fuel[OF assms(1) a] by auto
      then show ?thesis using Inl x by simp
    next
      case (Inr m1)
      have "budget h n m1" by (rule reduce_args_budget[OF assms(1) a Inr])
      then show ?thesis using Inr x rec_fuel_step[OF assms(1)] by simp
    qed
  qed
  have "fold_err ?f fm m \<noteq> Inl OutOfFuel"
    by (rule fold_err_never[where P="budget h n"]) (use assms(2) step in blast)+
  then show ?thesis by (simp add: reduce_output_fields_def)
qed

lemma reducer_named_fuel:
  assumes IH: "\<And>n. n < f \<Longrightarrow> rec_fuel h n (reducer n h)"
    and b: "budget h f m"
  shows "reducer f h m (Some (Named r)) \<noteq> Inl OutOfFuel"
proof (cases "deref h r")
  case None
  then show ?thesis by simp
next
  case (Some ty)
  show ?thesis
  proof (cases "map_of m (type_name ty)")
    case (Some r')
    with \<open>deref h r = Some ty\<close> show ?thesis by simp
  next
    case None
    note ty = \<open>deref h r = Some ty\<close>
    let ?m1 = "m @ [(type_name ty, r)]"
    have lt: "unvisited h ?m1 < unvisited h m" by (rule unvisited_insert[OF ty None])
    with b obtain n where f: "f = Suc n" unfolding budget_def by (cases f) auto
    have rec: "rec_fuel h n (\<lambda>m t. reducer n h m t)" using IH[of n] f by simp
    have b1: "budget h n ?m1"
      using b lt f map_inv_insert[OF _ ty None] unfolding budget_def by simp
    show ?thesis
    proof (cases ty)
      case (GraphQLObjectType nm fm ifs)
      show ?thesis
      proof (cases "reduce_types (\<lambda>m t. reducer n h m t) ifs ?m1")
        case (Inl e)
        then have "e \<noteq> OutOfFuel" using reduce_types_fuel[OF rec b1, of ifs] by auto
        with Inl ty None f GraphQLObjectType show ?thesis by simp
      next
        case (Inr m2)
        have "budget h n m2" by (rule reduce_types_budget[OF rec b1 Inr])
        from reduce_output_fields_fuel[OF rec this]
        show ?thesis using Inr ty None f GraphQLObjectType by simp
      qed
    qed (use ty None f reduce_types_fuel[OF rec b1] reduce_output_fields_fuel[OF rec b1]
           reduce_input_fields_fuel[OF rec b1] in auto)
  qed
qed

lemma reducer_fuel: "rec_fuel h f (reducer f h)"
proof (induction f rule: less_induct)
  case (less f)
  have "budget h f m \<Longrightarrow> reducer f h m t \<noteq> Inl OutOfFuel" for m t
  proof (cases t)
    case None
    then show ?thesis by simp
  next
    case (Some g)
    assume "budget h f m"
    then have "reducer f h m (Some g) \<noteq> Inl OutOfFuel"
    proof (induction g)
      case (Named r)
      then show ?case using reducer_named_fuel[of f h m r] less.IH by blast
    qed simp_all
    then show ?thesis using Some by simp
  qed
  then show ?case unfolding rec_fuel_def using reducer_ok by blast
qed

lemma unvisited_empty: "unvisited h [] \<le> length h"
  unfolding unvisited_def
  by (simp add: card_image_le[THEN le_trans] card_length)

lemma fold_err_agree:
  assumes "\<And>x a. x \<in> set xs \<Longrightarrow> f x a \<noteq> Inl e \<Longrightarrow> g x a = f x a"
    and "fold_err f xs s \<noteq> Inl e"
  shows "fold_err g xs s = fold_err f xs s"
  using assms
proof (induction xs arbitrary: s)
  case Nil
  then show ?case by simp
next
  case (Cons x xs)
  show ?case
  proof (cases "f x s")
    case (Inl e')
    with Cons.prems(2) have "e' \<noteq> e" by auto
    with Inl Cons.prems(1)[of x s] show ?thesis by simp
  next
    case (Inr s1)
    with Cons.prems(1)[of x s] have g: "g x s = Inr s1" by simp
    have "fold_err f xs s1 \<noteq> Inl e" using Cons.prems(2) Inr by simp
    then have "fold_err g xs s1 = fold_err f xs s1"
      using Cons.IH[of s1] Cons.prems(1) by (meson list.set_intros(2))
    with g Inr show ?thesis by simp
  qed
qed

lemma reduce_types_agree:
  assumes "agrees rec rec'" "reduce_types rec ts m \<noteq> Inl OutOfFuel"
  shows "reduce_types rec' ts m = reduce_types rec ts m"
  using assms unfolding reduce_types_def agrees_def
  by (intro fold_err_agree[where e=OutOfFuel]) auto

lemma reduce_args_agree:
  assumes "agrees rec rec'" "reduce_args rec h tn fn as m \<noteq> Inl OutOfFuel"
  shows "reduce_args rec' h tn fn as m = reduce_args rec h tn fn as m"
  using assms unfolding reduce_args_def agrees_def
  by (intro fold_err_agree[where e=OutOfFuel]) (auto split: prod.splits)

lemma reduce_input_fields_agree:
  assumes "agrees rec rec'" "reduce_input_fields rec h tn fm m \<noteq> Inl OutOfFuel"
  shows "reduce_input_fields rec' h tn fm m = reduce_input_fields rec h tn fm m"
  using assms unfolding reduce_input_fields_def agrees_def
  by (intro fold_err_agree[where e=OutOfFuel]) (auto split: prod.splits)

lemma reduce_output_fields_agree:
  assumes "agrees rec rec'" "reduce_output_fields rec h tn fm m \<noteq> Inl OutOfFuel"
  shows "reduce_output_fields rec' h tn fm m = reduce_output_fields rec h tn fm m"
proof -
  let ?F = "\<lambda>rec. (\<lambda>(field_name, field) m.
       if \<not> is_output_type h (field_type field)
       then Inl (FieldTypeMustBeOutput tn field_name (field_type field))
       else
         (case reduce_args rec h tn field_name (field_args field) m of
            Inl e \<Rightarrow> Inl e
          | Inr m' \<Rightarrow> rec m' (Some (field_type field))))"
  have step: "?F rec' x a = ?F rec x a" if "?F rec x a \<noteq> Inl OutOfFuel" for x a
  proof -
    obtain fn f where x: "x = (fn, f)" by (cases x)
    show ?thesis
    proof (cases "is_output_type h (field_type f)")
      case False
      then show ?thesis using x by simp
    next
      case True
      show ?thesis
      proof (cases "reduce_args rec h tn fn (field_args f) a")
        case (Inl e)
        with that x True have "e \<noteq> OutOfFuel" by auto
        with Inl have "reduce_args rec' h tn fn (field_args f) a = Inl e"
          using reduce_args_agree[OF assms(1), of h tn fn "field_args f" a] by simp
        with Inl x True show ?thesis by simp
      next
        case (Inr m1)
        then have 1: "reduce_args rec' h tn fn (field_args f) a = Inr m1"
          using reduce_args_agree[OF assms(1), of h tn fn "field_args f" a] by simp
        from that x True Inr have "rec m1 (Some (field_type f)) \<noteq> Inl OutOfFuel" by simp
        then have "rec' m1 (Some (field_type f)) = rec m1 (Some (field_type f))"
          using assms(1) unfolding agrees_def by blast
        with 1 Inr x True show ?thesis by simp
      qed
    qed
  qed
  have "fold_err (?F rec') fm m = fold_err (?F rec) fm m"
    by (rule fold_err_agree[where e=OutOfFuel])
       (use step assms(2) in \<open>auto simp: reduce_output_fields_def\<close>)
  then show ?thesis by (simp add: reduce_output_fields_def)
qed

lemma reducer_named_agree:
  assumes IH: "\<And>n. n < f \<Longrightarrow> agrees (reducer n h) (reducer (n + k) h)"
    and ok: "reducer f h m (Some (Named r)) \<noteq> Inl OutOfFuel"
  shows "reducer (f + k) h m (Some (Named r)) = reducer f h m (Some (Named r))"
proof (cases "deref h r")
  case None
  then show ?thesis by simp
next
  case (Some ty)
  note ty = this
  show ?thesis
  proof (cases "map_of m (type_name ty)")
    case (Some r')
    with ty show ?thesis by simp
  next
    case None
    with ok ty obtain n where f: "f = Suc n" by (cases f) auto
    have ag: "agrees (\<lambda>m t. reducer n h m t) (\<lambda>m t. reducer (n + k) h m t)"
      using IH[of n] f by simp
    let ?m1 = "m @ [(type_name ty, r)]"
    show ?thesis
    proof (cases ty)
      case (GraphQLObjectType nm fm ifs)
      show ?thesis
      proof (cases "reduce_types (\<lambda>m t. reducer n h m t) ifs ?m1")
        case (Inl e)
        with ok ty None f GraphQLObjectType have "e \<noteq> OutOfFuel" by auto
        with Inl have "reduce_types (\<lambda>m t. reducer (n + k) h m t) ifs ?m1 = Inl e"
          using reduce_types_agree[OF ag, of ifs ?m1] by simp
        with Inl ty None f GraphQLObjectType show ?thesis by simp
      next
        case (Inr m2)
        then have 1: "reduce_types (\<lambda>m t. reducer (n + k) h m t) ifs ?m1 = Inr m2"
          using reduce_types_agree[OF ag, of ifs ?m1] by simp
        from ok ty None f GraphQLObjectType Inr
        have "reduce_output_fields (\<lambda>m t. reducer n h m t) h nm fm m2 \<noteq> Inl OutOfFuel"
          by simp
        from reduce_output_fields_agree[OF ag this] 1 Inr ty None f GraphQLObjectType
        show ?thesis by simp
      qed
    next
      case (GraphQLUnionType nm ts)
      with ok ty None f
      have "reduce_types (\<lambda>m t. reducer n h m t) ts ?m1 \<noteq> Inl OutOfFuel" by simp
      from reduce_types_agree[OF ag this] ty None f GraphQLUnionType
      show ?thesis by simp
    next
      case (GraphQLInterfaceType nm fm)
      with ok ty None f
      have "reduce_output_fields (\<lambda>m t. reducer n h m t) h nm fm ?m1 \<noteq> Inl OutOfFuel" by simp
      from reduce_output_fields_agree[OF ag this] ty None f GraphQLInterfaceType
      show ?thesis by simp
    next
      case (GraphQLInputObjectType nm fm)
      with ok ty None f
      have "reduce_input_fields (\<lambda>m t. reducer n h m t) h nm fm ?m1 \<noteq> Inl OutOfFuel" by simp
      from reduce_input_fields_agree[OF ag this] ty None f GraphQLInputObjectType
      show ?thesis by simp
    qed (use ty None f in auto)
  qed
qed

lemma reducer_agree: "agrees (reducer f h) (reducer (f + k) h)"
proof (induction f rule: less_induct)
  case (less f)
  have "reducer f h m t \<noteq> Inl OutOfFuel \<Longrightarrow> reducer (f + k) h m t = reducer f h m t" for m t
  proof (cases t)
    case None
    then show ?thesis by simp
  next
    case (Some g)
    assume "reducer f h m t \<noteq> Inl OutOfFuel"
    with Some have "reducer f h m (Some g) \<noteq> Inl OutOfFuel" by simp
    then have "reducer (f + k) h m (Some g) = reducer f h m (Some g)"
    proof (induction g)
      case (Named r)
      then show ?case using reducer_named_agree[of f h k m r] less.IH by blast
    qed simp_all
    then show ?thesis using Some by simp
  qed
  then show ?case unfolding agrees_def by blast
qed

lemma roots_ok:
  assumes "fold_err (\<lambda>ty mp. reducer f h mp ty) types [] = Inr m"
  shows "map_inv h m \<and> grows h [] m \<and> (\<forall>t. Some t \<in> set types \<longrightarrow> registered h m (named_of t))"
proof -
  let ?Q = "\<lambda>x m. case x of None \<Rightarrow> True | Some t \<Rightarrow> registered h m (named_of t)"
  have "map_inv h m \<and> grows h [] m \<and> (\<forall>x\<in>set types. ?Q x m)"
  proof (rule fold_err_chain[where P="map_inv h" and G="grows h" and Q="?Q"
        and f="\<lambda>ty mp. reducer f h mp ty"])
    show "fold_err (\<lambda>ty mp. reducer f h mp ty) types [] = Inr m" by fact
    show "map_inv h []" by (simp add: map_inv_def)
    show "map_inv h b \<and> grows h a b \<and> ?Q x b"
      if "map_inv h a" "reducer f h a x = Inr b" for x a b
    proof (cases x)
      case None
      with that show ?thesis by (simp add: grows_refl)
    next
      case (Some t)
      with that reducer_ok[of h f] show ?thesis unfolding rec_ok_def by simp
    qed
  qed (auto intro: grows_refl grows_trans registered_grows split: option.splits)
  then show ?thesis by fastforce
qed

lemma roots_fuel:
  "fold_err (\<lambda>ty mp. reducer (length h) h mp ty) types [] \<noteq> Inl OutOfFuel"
proof (rule fold_err_never[where P="budget h (length h)"])
  show "budget h (length h) []"
    by (simp add: budget_def map_inv_def unvisited_empty)
  show "reducer (length h) h a x \<noteq> Inl OutOfFuel \<and>
        (\<forall>b. reducer (length h) h a x = Inr b \<longrightarrow> budget h (length h) b)"
    if "budget h (length h) a" for x a
  proof (cases x)
    case None
    with that show ?thesis by simp
  next
    case (Some t)
    with that rec_fuel_step[OF reducer_fuel that, of t] show ?thesis by simp
  qed
qed

lemma roots_agree:
  "fold_err (\<lambda>ty mp. reducer (length h + k) h mp ty) types [] =
   fold_err (\<lambda>ty mp. reducer (length h) h mp ty) types []"
  by (rule fold_err_agree[where e=OutOfFuel])
     (use reducer_agree[of "length h" h k] roots_fuel in \<open>auto simp: agrees_def\<close>)

lemma registered_entry:
  "registered h m r \<Longrightarrow> \<exists>d. deref h r = Some d \<and> (type_name d, r) \<in> set m"
  by (auto simp: registered_def split: option.splits dest: map_of_SomeD)

lemma reachable_registered:
  assumes "grows h [] m" "\<forall>t. Some t \<in> set types \<longrightarrow> registered h m (named_of t)"
    and "r \<in> reachable h types"
  shows "registered h m r"
  using assms(3)
proof (induction rule: reachable.induct)
  case (root t)
  then show ?case using assms(2) by simp
next
  case (step r d s)
  from registered_entry[OF step.IH] step.hyps(2) have "(type_name d, r) \<in> set m" by simp
  with assms(1) have "closed h m r" by (auto simp: grows_def)
  with step.hyps show ?case by (simp add: closed_def)
qed

lemma distinct_count_list_one: "distinct xs \<Longrightarrow> x \<in> set xs \<Longrightarrow> count_list xs x = 1"
  by (induction xs) auto

lemma map_inv_values_distinct:
  assumes "map_inv h m"
  shows "distinct (map snd m)"
proof -
  have "map fst m = map (\<lambda>r. case deref h r of None \<Rightarrow> [] | Some d \<Rightarrow> type_name d) (map snd m)"
    using assms by (auto simp: map_inv_def)
  then show ?thesis using assms distinct_map unfolding map_inv_def by metis
qed

lemma init_entries:
  assumes "GraphQLTypeMap_init sub h types = Inr tm"
  shows "fold_err (\<lambda>ty mp. reducer (length h) h mp ty) types [] = Inr (entries tm)"
  using assms unfolding GraphQLTypeMap_init_def
  by (auto simp: Let_def split: sum.splits)

lemma check_all_never:
  assumes "\<And>x. x \<in> set xs \<Longrightarrow> f x \<noteq> Inl e"
  shows "check_all f xs \<noteq> Inl e"
  unfolding check_all_def
  by (rule fold_err_never[where P="\<lambda>u. True"]) (use assms in auto)

lemma check_interface_field_never:
  "check_interface_field sub schema oname ofm iname x \<noteq> Inl OutOfFuel"
proof -
  obtain fn f where x: "x = (fn, f)" by (cases x)
  have 1: "check_all (\<lambda>(arg_name, interface_arg).
              case map_of (field_args object_field) arg_name of
                None \<Rightarrow> Inl (ExpectsArgument iname fn arg_name oname)
              | Some object_arg \<Rightarrow>
                  if \<not> is_equal_type (arg_type interface_arg) (arg_type object_arg)
                  then Inl (ExpectsArgType iname fn arg_name
                         (arg_type interface_arg) oname (arg_type object_arg))
                  else Inr ()) (field_args f) \<noteq> Inl OutOfFuel" for object_field
    by (rule check_all_never) (auto split: option.splits if_splits)
  have 2: "check_all (\<lambda>(arg_name, object_arg).
              case map_of (field_args f) arg_name of
                None \<Rightarrow>
                  if is_non_null (arg_type object_arg)
                  then Inl (RequiredExtraArg oname fn arg_name (arg_type object_arg) iname)
                  else Inr ()
              | Some interface_arg \<Rightarrow> Inr ()) (field_args object_field) \<noteq> Inl OutOfFuel"
    for object_field
    by (rule check_all_never) (auto split: option.splits if_splits)
  show ?thesis
    unfolding check_interface_field_def x
    using 1 2 by (auto split: option.splits sum.splits)
qed

lemma assert_object_implements_interface_never:
  "assert_object_implements_interface sub schema h ob i \<noteq> Inl OutOfFuel"
  unfolding assert_object_implements_interface_def
  using check_all_never[of _ "check_interface_field sub schema _ _ _" OutOfFuel]
    check_interface_field_never
  by (auto split: option.splits type_def.splits)

lemma enforce_never: "enforce_implementations sub self h vals \<noteq> Inl OutOfFuel"
  unfolding enforce_implementations_def
proof (rule check_all_never)
  fix x
  have "check_all (assert_object_implements_interface sub self h x) ifs \<noteq> Inl OutOfFuel" for ifs
    by (rule check_all_never) (rule assert_object_implements_interface_never)
  then show "(case deref h x of None \<Rightarrow> Inl (DanglingReference x)
        | Some (GraphQLObjectType nm field_map ifaces) \<Rightarrow>
            check_all (assert_object_implements_interface sub self h x) ifaces
        | Some _ \<Rightarrow> Inr ()) \<noteq> Inl OutOfFuel"
    by (auto split: option.splits type_def.splits)
qed

lemma build_implementations_never: "build_implementations h vals \<noteq> Inl OutOfFuel"
  unfolding build_implementations_def
proof (rule fold_err_never[where P="\<lambda>u. True"])
  fix x and a :: "string \<rightharpoonup> ref list"
  have "fold_err (add_implementation h x) ifs a \<noteq> Inl OutOfFuel" for ifs
    by (rule fold_err_never[where P="\<lambda>u. True"])
       (auto simp: add_implementation_def split: option.splits)
  then show "(case deref h x of None \<Rightarrow> Inl (DanglingReference x)
        | Some (GraphQLObjectType nm field_map ifaces) \<Rightarrow>
            fold_err (add_implementation h x) ifaces a
        | Some _ \<Rightarrow> Inr a) \<noteq> Inl OutOfFuel \<and>
       (\<forall>b. (case deref h x of None \<Rightarrow> Inl (DanglingReference x)
        | Some (GraphQLObjectType nm field_map ifaces) \<Rightarrow>
            fold_err (add_implementation h x) ifaces a
        | Some _ \<Rightarrow> Inr a) = Inr b \<longrightarrow> True)"
    by (auto split: option.splits type_def.splits)
qed simp

lemma init_fuel: "GraphQLTypeMap_init sub h types \<noteq> Inl OutOfFuel"
  unfolding GraphQLTypeMap_init_def
  using roots_fuel[of h types] build_implementations_never enforce_never
  by (auto simp: Let_def split: sum.splits)

lemma reducer_unwrap: "reducer f h m (Some t) = reducer f h m (Some (Named (named_of t)))"
  by (induction t) simp_all

lemma fold_err_stops:
  "fold_err f xs s = Inr s1 \<Longrightarrow> f x s1 = Inl e \<Longrightarrow> fold_err f (xs @ x # ys) s = Inl e"
  by (induction xs arbitrary: s) (auto split: sum.splits)

lemma unique_message_quotes:
  "sublist ''must contain unique named types'' (unique_named_types_message n) \<and>
   sublist (''\"'' @ n @ ''\"'') (unique_named_types_message n)"
proof -
  have "unique_named_types_message n =
     ''Schema '' @ ''must contain unique named types'' @
       ('' but contains multiple types named \"'' @ n @ ''\".'')"
    by (simp add: unique_named_types_message_def)
  then have 1: "sublist ''must contain unique named types'' (unique_named_types_message n)"
    unfolding sublist_def by blast
  have "unique_named_types_message n =
     ''Schema must contain unique named types but contains multiple types named '' @
       (''\"'' @ n @ ''\"'') @ ''.''"
    by (simp add: unique_named_types_message_def)
  then have 2: "sublist (''\"'' @ n @ ''\"'') (unique_named_types_message n)"
    unfolding sublist_def by blast
  show ?thesis using 1 2 by simp
qed

lemma add_implementation_lookup:
  assumes "fold_err (add_implementation h ob) ifs impl = Inr impl'"
  shows "lookup_list impl' nm = lookup_list impl nm @ map (\<lambda>i. ob) (filter (name_is h nm) ifs)
       \<and> (impl nm \<noteq> Some [] \<longrightarrow> impl' nm \<noteq> Some [])"
  using assms
proof (induction ifs arbitrary: impl)
  case Nil
  then show ?case by simp
next
  case (Cons i ifs)
  from Cons.prems obtain d where d: "deref h i = Some d"
    by (cases "deref h i") (auto simp: add_implementation_def)
  let ?impl1 = "impl(type_name d \<mapsto> lookup_list impl (type_name d) @ [ob])"
  have "add_implementation h ob i impl = Inr ?impl1"
    using d by (simp add: add_implementation_def lookup_list_def)
  with Cons.prems have rest: "fold_err (add_implementation h ob) ifs ?impl1 = Inr impl'"
    by simp
  have 1: "lookup_list ?impl1 nm =
      lookup_list impl nm @ (if name_is h nm i then [ob] else [])"
    using d by (simp add: lookup_list_def name_is_def)
  have 2: "impl nm \<noteq> Some [] \<longrightarrow> ?impl1 nm \<noteq> Some []" by simp
  from Cons.IH[OF rest]
  have 3: "lookup_list impl' nm =
      lookup_list ?impl1 nm @ map (\<lambda>i. ob) (filter (name_is h nm) ifs)"
    and 4: "?impl1 nm \<noteq> Some [] \<longrightarrow> impl' nm \<noteq> Some []" by blast+
  show ?case unfolding 3 1 using 2 4 by simp
qed

lemma build_implementations_lookup_gen:
  assumes "fold_err (\<lambda>gql_type impl.
       case deref h gql_type of
         None \<Rightarrow> Inl (DanglingReference gql_type)
       | Some (GraphQLObjectType nm field_map ifaces) \<Rightarrow>
           fold_err (add_implementation h gql_type) ifaces impl
       | Some _ \<Rightarrow> Inr impl) vals impl = Inr impl'"
  shows "lookup_list impl' nm = lookup_list impl nm @ implementers_named h vals nm
       \<and> (impl nm \<noteq> Some [] \<longrightarrow> impl' nm \<noteq> Some [])"
  using assms
proof (induction vals arbitrary: impl)
  case Nil
  then show ?case by (simp add: implementers_named_def)
next
  case (Cons r vals)
  let ?body = "\<lambda>gql_type impl.
       case deref h gql_type of
         None \<Rightarrow> Inl (DanglingReference gql_type)
       | Some (GraphQLObjectType nm field_map ifaces) \<Rightarrow>
           fold_err (add_implementation h gql_type) ifaces impl
       | Some _ \<Rightarrow> Inr impl"
  from Cons.prems obtain impl1 where
    1: "?body r impl = Inr impl1" and rest: "fold_err ?body vals impl1 = Inr impl'"
    by (auto split: sum.splits)
  have step: "lookup_list impl1 nm = lookup_list impl nm @ listings h (name_is h nm) r
       \<and> (impl nm \<noteq> Some [] \<longrightarrow> impl1 nm \<noteq> Some [])"
  proof (cases "deref h r")
    case None
    with 1 show ?thesis by simp
  next
    case (Some d)
    show ?thesis
    proof (cases d)
      case (GraphQLObjectType n fm ifs)
      with 1 Some have "fold_err (add_implementation h r) ifs impl = Inr impl1" by simp
      from add_implementation_lookup[OF this, of nm] Some GraphQLObjectType
      show ?thesis by (simp add: listings_def)
    qed (use 1 Some in \<open>auto simp: listings_def\<close>)
  qed
  from Cons.IH[OF rest] step show ?case by (simp add: implementers_named_def)
qed

lemma build_implementations_lookup:
  assumes "build_implementations h vals = Inr impl"
  shows "lookup_list impl nm = implementers_named h vals nm" and "impl nm \<noteq> Some []"
  using build_implementations_lookup_gen[of h vals Map.empty impl nm] assms
  by (simp_all add: build_implementations_def lookup_list_def)

lemma init_parts:
  assumes "GraphQLTypeMap_init sub h types = Inr tm"
  shows "build_implementations h (map snd (entries tm)) = Inr (implementations tm)"
    and "possible_type_map tm = Map.empty"
    and "enforce_implementations sub tm h (map snd (entries tm)) = Inr ()"
  using assms unfolding GraphQLTypeMap_init_def
  by (auto simp: Let_def split: sum.splits)

lemma get_possible_types_interface:
  assumes "GraphQLTypeMap_init sub h types = Inr tm"
    and "deref h a = Some (GraphQLInterfaceType nm fm)"
  shows "get_possible_types (tm\<lparr>possible_type_map := c\<rparr>) h a =
           Inr (implementers_named h (map snd (entries tm)) nm)"
  using build_implementations_lookup(1)[OF init_parts(1)[OF assms(1)], of nm] assms(2)
  by (simp add: get_possible_types_def lookup_list_def split: option.splits)



lemma get_possible_types_cache:
  "get_possible_types (tm\<lparr>possible_type_map := c\<rparr>) h a = get_possible_types tm h a"
  by (simp add: get_possible_types_def split: option.splits type_def.splits)

lemma is_possible_type_empty:
  assumes "get_possible_types tm h a = Inr []" "deref h a = Some ad"
  shows "is_possible_type tm h a p = Inl (NoPossibleTypes (type_name ad))"
  using assms by (simp add: is_possible_type_def)

lemmas eval_defs = GraphQLTypeMap_init_def deref_def reduce_types_def
  reduce_output_fields_def reduce_args_def reduce_input_fields_def is_output_type_def
  is_input_type_def build_implementations_def add_implementation_def
  enforce_implementations_def assert_object_implements_interface_def
  check_interface_field_def check_all_def is_equal_type_def

lemma schema_init:
  "GraphQLTypeMap_init (\<lambda>s a b. a = b) schema_heap [Some (Named 0), None] = Inr schema_map"
  by (simp add: schema_heap_def schema_map_def eval_defs)

lemma is_possible_type_frame:
  assumes "is_possible_type self h a p = Inr (b, self')"
  shows "entries self' = entries self" "implementations self' = implementations self"
    "get_possible_types self' h x = get_possible_types self h x"
proof -
  from assms have "self' = self \<or> (\<exists>c. self' = self\<lparr>possible_type_map := c\<rparr>)"
    by (auto simp: is_possible_type_def split: sum.splits option.splits if_splits)
  then show "entries self' = entries self" "implementations self' = implementations self"
    "get_possible_types self' h x = get_possible_types self h x"
    by (auto simp: get_possible_types_cache)
qed

lemma is_possible_type_twice:
  assumes "is_possible_type self h a p = Inr (b, self')"
  shows "is_possible_type self' h a p = Inr (b, self')"
proof -
  from assms obtain pts ad pd where
    g: "get_possible_types self h a = Inr pts" and ad: "deref h a = Some ad"
    and ne: "pts \<noteq> []" and pd: "deref h p = Some pd"
    by (auto simp: is_possible_type_def split: sum.splits option.splits if_splits)
  show ?thesis
  proof (cases "possible_type_map self (type_name ad)")
    case (Some cached)
    with assms g ad ne pd have "self' = self" by (simp add: is_possible_type_def)
    with assms show ?thesis by simp
  next
    case None
    with assms g ad ne pd obtain ns where ns: "names_of h pts = Inr ns"
      and b: "b = (type_name pd \<in> set ns)"
      and s: "self' = self\<lparr>possible_type_map := (possible_type_map self)(type_name ad \<mapsto> set ns)\<rparr>"
      by (auto simp: is_possible_type_def split: sum.splits)
    have "get_possible_types self' h a = Inr pts"
      using g s by (simp add: get_possible_types_cache)
    then show ?thesis using ad ne pd b s by (simp add: is_possible_type_def)
  qed
qed

lemma get_possible_types_same:
  "entries s1 = entries s2 \<Longrightarrow> implementations s1 = implementations s2 \<Longrightarrow>
   get_possible_types s1 h a = get_possible_types s2 h a"
  by (simp add: get_possible_types_def split: option.splits type_def.splits)




lemma names_of_total:
  "\<forall>r\<in>set pts. deref h r \<noteq> None \<Longrightarrow> \<exists>ns. names_of h pts = Inr ns"
  by (induction pts) (auto split: option.splits sum.splits)

lemma implementers_named_subset: "set (implementers_named h vals nm) \<subseteq> set vals"
  by (auto simp: implementers_named_def listings_def split: option.splits type_def.splits)

lemma possible_types_exist:
  assumes init: "GraphQLTypeMap_init sub h types = Inr tm"
    and reg: "registered h (entries tm) a"
    and g: "get_possible_types tm h a = Inr pts"
  shows "\<forall>r\<in>set pts. deref h r \<noteq> None"
proof -
  from roots_ok[OF init_entries[OF init]]
  have inv: "map_inv h (entries tm)" and gr: "grows h [] (entries tm)" by simp_all
  from reg obtain ad where ad: "deref h a = Some ad"
    by (auto simp: registered_def split: option.splits)
  from registered_entry[OF reg] ad have "(type_name ad, a) \<in> set (entries tm)" by simp
  with gr have cl: "closed h (entries tm) a" by (auto simp: grows_def)
  show ?thesis
  proof (cases ad)
    case (GraphQLUnionType nm ts)
    with g ad have "pts = ts" by (simp add: get_possible_types_def)
    with cl ad GraphQLUnionType have "\<forall>r\<in>set pts. registered h (entries tm) r"
      by (simp add: closed_def)
    then show ?thesis by (auto simp: registered_def split: option.splits)
  next
    case (GraphQLInterfaceType nm fm)
    with ad have "deref h a = Some (GraphQLInterfaceType nm fm)" by simp
    from get_possible_types_interface[OF init this, of "possible_type_map tm"] g
    have "pts = implementers_named h (map snd (entries tm)) nm" by simp
    with implementers_named_subset[of h "map snd (entries tm)" nm]
    have "set pts \<subseteq> snd ` set (entries tm)" by simp
    with inv show ?thesis by (fastforce simp: map_inv_def)
  qed (use g ad in \<open>simp_all add: get_possible_types_def\<close>)
qed

lemma clash_init:
  "GraphQLTypeMap_init (\<lambda>s a b. a = b) clash_heap [Some (Named 0), None] = Inr schema_map"
  by (simp add: clash_heap_def schema_heap_def schema_map_def eval_defs)

lemma run_queries_frame:
  "entries (run_queries h self qs) = entries self \<and>
   implementations (run_queries h self qs) = implementations self"
proof (induction qs arbitrary: self)
  case Nil
  then show ?case by simp
next
  case (Cons q qs)
  obtain a p where q: "q = (a, p)" by (cases q)
  show ?case
  proof (cases "is_possible_type self h a p")
    case (Inl e)
    with Cons q show ?thesis by simp
  next
    case (Inr r)
    obtain b self' where r: "r = (b, self')" by (cases r)
    from Inr r have run: "is_possible_type self h a p = Inr (b, self')" by simp
    have "entries self' = entries self" "implementations self' = implementations self"
      using is_possible_type_frame[OF run] by simp_all
    with Cons.IH[of self'] run q show ?thesis by simp
  qed
qed

lemma cache_step:
  assumes run: "is_possible_type self h a' p' = Inr (b, self')"
    and ad: "deref h a = Some ad" and g: "get_possible_types self h a = Inr pts"
    and ns: "names_of h pts = Inr ns"
    and clash: "name_is h (type_name ad) a' \<longrightarrow> a' = a"
    and inv: "\<forall>s. possible_type_map self (type_name ad) = Some s \<longrightarrow> s = set ns"
  shows "\<forall>s. possible_type_map self' (type_name ad) = Some s \<longrightarrow> s = set ns"
proof -
  from run obtain pts' ad' pd' where
    g': "get_possible_types self h a' = Inr pts'" and ad': "deref h a' = Some ad'"
    and ne: "pts' \<noteq> []" and pd: "deref h p' = Some pd'"
    by (auto simp: is_possible_type_def split: sum.splits option.splits if_splits)
  show ?thesis
  proof (cases "possible_type_map self (type_name ad')")
    case (Some cached)
    with run g' ad' ne pd have "self' = self" by (simp add: is_possible_type_def)
    with inv show ?thesis by simp
  next
    case None
    with run g' ad' ne pd obtain ns' where ns': "names_of h pts' = Inr ns'"
      and s: "self' = self\<lparr>possible_type_map := (possible_type_map self)(type_name ad' \<mapsto> set ns')\<rparr>"
      by (auto simp: is_possible_type_def split: sum.splits)
    show ?thesis
    proof (cases "type_name ad' = type_name ad")
      case True
      with ad' have "name_is h (type_name ad) a'" by (simp add: name_is_def)
      with clash have "a' = a" by simp
      with g g' ns ns' have "ns' = ns" by simp
      with s True show ?thesis by simp
    next
      case False
      with s inv show ?thesis by simp
    qed
  qed
qed

lemma run_queries_cache:
  assumes ad: "deref h a = Some ad" and g: "get_possible_types self h a = Inr pts"
    and ns: "names_of h pts = Inr ns"
    and clash: "\<forall>(a', p') \<in> set qs. name_is h (type_name ad) a' \<longrightarrow> a' = a"
    and inv: "\<forall>s. possible_type_map self (type_name ad) = Some s \<longrightarrow> s = set ns"
  shows "\<forall>s. possible_type_map (run_queries h self qs) (type_name ad) = Some s \<longrightarrow> s = set ns"
  using g clash inv
proof (induction qs arbitrary: self)
  case Nil
  then show ?case by simp
next
  case (Cons q qs)
  obtain a' p' where q: "q = (a', p')" by (cases q)
  from Cons.prems(2) have rest: "\<forall>(a', p') \<in> set qs. name_is h (type_name ad) a' \<longrightarrow> a' = a"
    by simp
  show ?case
  proof (cases "is_possible_type self h a' p'")
    case (Inl e)
    with Cons.IH[OF Cons.prems(1) rest Cons.prems(3)] q show ?thesis by simp
  next
    case (Inr r)
    obtain b self' where r: "r = (b, self')" by (cases r)
    from Inr r have run: "is_possible_type self h a' p' = Inr (b, self')" by simp
    from Cons.prems(2) q have c: "name_is h (type_name ad) a' \<longrightarrow> a' = a" by simp
    have 1: "\<forall>s. possible_type_map self' (type_name ad) = Some s \<longrightarrow> s = set ns"
      by (rule cache_step[OF run ad Cons.prems(1) ns c Cons.prems(3)])
    have 2: "get_possible_types self' h a = Inr pts"
      using is_possible_type_frame(3)[OF run] Cons.prems(1) by simp
    from Cons.IH[OF 2 rest 1] run q show ?thesis by simp
  qed
qed

lemma is_possible_type_answer:
  assumes g: "get_possible_types self h a = Inr pts" and ad: "deref h a = Some ad"
    and ne: "pts \<noteq> []" and ns: "names_of h pts = Inr ns" and pd: "deref h p = Some pd"
  shows "\<exists>b self'. is_possible_type self h a p = Inr (b, self') \<and>
           ((\<forall>s. possible_type_map self (type_name ad) = Some s \<longrightarrow> s = set ns) \<longrightarrow>
              b = (type_name pd \<in> set ns))"
  using assms
  by (cases "possible_type_map self (type_name ad)") (simp_all add: is_possible_type_def)


section \<open>Properties of the rule on fragment names\<close>

lemma visit_definitions_append:
  "visit_definitions self (ds @ es) = visit_definitions (visit_definitions self ds) es"
  by (induction self ds rule: visit_definitions.induct) simp_all

lemma fragment_names_append: "fragment_names (ds @ es) = fragment_names ds @ fragment_names es"
  by (induction ds rule: fragment_names.induct) simp_all

lemma expected_errors_snoc:
  "expected_errors (ns @ [x]) =
     expected_errors ns @
       (case first_named (name_value x) ns of None \<Rightarrow> [] | Some first \<Rightarrow> [duplicate_error first x])"
proof -
  let ?g = "\<lambda>ms i. case first_named (name_value (ms ! i)) (take i ms) of
                          None \<Rightarrow> []
                        | Some first \<Rightarrow> [duplicate_error first (ms ! i)]"
  have a: "map (?g (ns @ [x])) [0..<length ns] = map (?g ns) [0..<length ns]"
    by (rule map_cong) (simp_all add: nth_append cong: option.case_cong)
  have b: "?g (ns @ [x]) (length ns) =
      (case first_named (name_value x) ns of None \<Rightarrow> [] | Some first \<Rightarrow> [duplicate_error first x])"
    by (simp cong: option.case_cong)
  have "expected_errors (ns @ [x]) =
      concat (map (?g (ns @ [x])) ([0..<length ns] @ [length ns]))"
    by (simp add: expected_errors_def)
  also have "\<dots> = concat (map (?g (ns @ [x])) [0..<length ns]) @ ?g (ns @ [x]) (length ns)"
    by (simp only: map_append concat_append list.map concat.simps append_Nil2)
  also have "\<dots> = expected_errors ns @
       (case first_named (name_value x) ns of None \<Rightarrow> [] | Some first \<Rightarrow> [duplicate_error first x])"
    by (simp only: a b expected_errors_def)
  finally show ?thesis .
qed

lemma first_named_snoc:
  "first_named n (ns @ [x]) =
     (case first_named n ns of Some f \<Rightarrow> Some f
      | None \<Rightarrow> if name_value x = n then Some x else None)"
  by (induction ns) (simp_all add: first_named_def)

lemma enter_fragment_definition_state:
  assumes k: "\<And>m. known_fragment_names self m = first_named m ns"
    and r: "reported self = expected_errors ns"
  shows "known_fragment_names (snd (enter_fragment_definition self node)) n =
           first_named n (ns @ [fragment_def_name node]) \<and>
         reported (snd (enter_fragment_definition self node)) =
           expected_errors (ns @ [fragment_def_name node])"
proof (cases "first_named (name_value (fragment_def_name node)) ns")
  case None
  with k[of "name_value (fragment_def_name node)"] k[of n] r show ?thesis
    by (auto simp: enter_fragment_definition_def first_named_snoc expected_errors_snoc
          split: option.splits)
next
  case (Some f)
  with k[of "name_value (fragment_def_name node)"] k[of n] r show ?thesis
    by (auto simp: enter_fragment_definition_def first_named_snoc expected_errors_snoc
          report_error_def duplicate_error_def split: option.splits)
qed

lemma visit_definitions_state:
  "known_fragment_names (visit_definitions UniqueFragmentNamesRule_init ds) n =
     first_named n (fragment_names ds) \<and>
   reported (visit_definitions UniqueFragmentNamesRule_init ds) =
     expected_errors (fragment_names ds)"
proof (induction ds arbitrary: n rule: rev_induct)
  case Nil
  show ?case
    by (simp add: UniqueFragmentNamesRule_init_def first_named_def expected_errors_def)
next
  case (snoc d ds)
  show ?case
  proof (cases d)
    case OperationDefinition
    with snoc show ?thesis
      by (simp add: visit_definitions_append fragment_names_append enter_operation_definition_def)
  next
    case (FragmentDefinition node)
    let ?s = "visit_definitions UniqueFragmentNamesRule_init ds"
    from enter_fragment_definition_state[of ?s "fragment_names ds" node n] snoc
    show ?thesis
      by (simp add: FragmentDefinition visit_definitions_append fragment_names_append)
  qed
qed

section \<open>Properties of the lexer\<close>

lemma takeWhile_take: "takeWhile P cs = take (length (takeWhile P cs)) cs"
  by (induction cs) auto

lemma scan_seq_prefix:
  assumes "scans_prefix p" "scans_prefix q"
  shows "scans_prefix (scan_seq p q)"
  unfolding scans_prefix_def
proof (intro allI impI)
  fix cs m assume "scan_seq p q cs = Inr m"
  then obtain a b where a: "p cs = Inr a" and b: "q (drop (length a) cs) = Inr b"
    and m: "m = a @ b"
    by (auto simp: scan_seq_def split: sum.splits)
  from assms a b have "a = take (length a) cs" "b = take (length b) (drop (length a) cs)"
    unfolding scans_prefix_def by blast+
  then have "a @ b = take (length (a @ b)) cs"
    by (metis length_append take_add)
  then show "m = take (length m) cs" unfolding m .
qed

lemma read_digits_prefix: "scans_prefix read_digits"
  unfolding scans_prefix_def read_digits_def
  using takeWhile_take[of is_digit]
  by (auto split: list.splits if_splits)

lemma read_sign_prefix: "scans_prefix read_sign"
  unfolding scans_prefix_def read_sign_def
  by (auto split: if_splits)

lemma read_int_part_prefix: "scans_prefix read_int_part"
  unfolding scans_prefix_def
proof (intro allI impI)
  fix cs m assume r: "read_int_part cs = Inr m"
  show "m = take (length m) cs"
  proof (cases "take 1 cs = [48]")
    case True
    with r have "m = [48]" by (auto simp: read_int_part_def split: list.splits if_splits)
    with True show ?thesis by simp
  next
    case False
    with r have "read_digits cs = Inr m" by (simp add: read_int_part_def)
    with read_digits_prefix show ?thesis unfolding scans_prefix_def by blast
  qed
qed

lemma const_prefix: "scans_prefix (\<lambda>cs. Inr (take 1 cs))"
  unfolding scans_prefix_def by (auto simp: min_def)

lemma read_fraction_prefix: "scans_prefix read_fraction"
  unfolding scans_prefix_def
proof (intro allI impI)
  fix cs m assume r: "read_fraction cs = Inr m"
  show "m = take (length m) cs"
  proof (cases "take 1 cs = [46]")
    case True
    then have "(\<lambda>cs. Inr [46]) cs = (\<lambda>cs. Inr (take 1 cs)) cs" by simp
    with r True have "scan_seq (\<lambda>cs. Inr (take 1 cs)) read_digits cs = Inr m"
      by (simp add: read_fraction_def scan_seq_def)
    with scan_seq_prefix[OF const_prefix read_digits_prefix] show ?thesis
      unfolding scans_prefix_def by blast
  next
    case False
    with r show ?thesis by (simp add: read_fraction_def)
  qed
qed

lemma read_exponent_sign_prefix: "scans_prefix read_exponent_sign"
  unfolding scans_prefix_def read_exponent_sign_def
  by (auto split: if_splits simp: min_def)

lemma read_exponent_prefix: "scans_prefix read_exponent"
  unfolding scans_prefix_def
proof (intro allI impI)
  fix cs m assume r: "read_exponent cs = Inr m"
  show "m = take (length m) cs"
  proof (cases "take 1 cs = [69] \<or> take 1 cs = [101]")
    case True
    with r have "scan_seq (\<lambda>cs. Inr (take 1 cs)) (scan_seq read_exponent_sign read_digits) cs = Inr m"
      by (simp add: read_exponent_def)
    with scan_seq_prefix[OF const_prefix
        scan_seq_prefix[OF read_exponent_sign_prefix read_digits_prefix]]
    show ?thesis unfolding scans_prefix_def by blast
  next
    case False
    with r show ?thesis by (simp add: read_exponent_def)
  qed
qed

lemma read_number_prefix:
  assumes "read_number cs = Inr (v, is_float)"
  shows "v = take (length v) cs"
proof -
  from assms obtain a b where a: "scan_seq read_sign read_int_part cs = Inr a"
    and b: "scan_seq read_fraction read_exponent (drop (length a) cs) = Inr b"
    and v: "v = a @ b"
    by (auto simp: read_number_def split: sum.splits)
  have "a = take (length a) cs"
    using scan_seq_prefix[OF read_sign_prefix read_int_part_prefix] a
    unfolding scans_prefix_def by blast
  moreover have "b = take (length b) (drop (length a) cs)"
    using scan_seq_prefix[OF read_fraction_prefix read_exponent_prefix] b
    unfolding scans_prefix_def by blast
  ultimately have "a @ b = take (length (a @ b)) cs"
    by (metis length_append take_add)
  then show ?thesis unfolding v .
qed

lemma shift_Inr:
  "shift k w r = Inr (n, v) \<longleftrightarrow> (\<exists>n' v'. r = Inr (n', v') \<and> n = k + n' \<and> v = w @ v')"
  by (auto simp: shift_def split: sum.splits)

lemma read_string_chars_decodes:
  "read_string_chars cs = Inr (n, v) \<Longrightarrow>
     \<exists>inner. take n cs = inner @ [34] \<and> decode_escapes inner = Some v"
proof (induction cs arbitrary: n v rule: read_string_chars.induct)
  case 1
  then show ?case by simp
next
  case (2 c cs)
  show ?case
  proof (cases "c = 34")
    case True
    with "2.prems" have "take n (c # cs) = [] @ [34] \<and> decode_escapes [] = Some v"
      by auto
    then show ?thesis by blast
  next
    case quote: False
    show ?thesis
    proof (cases "c = 92")
      case False
      with quote "2.prems" obtain n' v' where
        r: "read_string_chars cs = Inr (n', v')" and n: "n = 1 + n'" and v: "v = [c] @ v'"
        by (auto simp: shift_Inr split: if_splits)
      from quote False "2.prems" have ok: "\<not> (c = 10 \<or> c = 13)" "\<not> (c < 32 \<and> c \<noteq> 9)"
        by (auto split: if_splits)
      from "2.IH"(3)[OF quote ok False r] obtain inner where
        "take n' cs = inner @ [34]" "decode_escapes inner = Some v'" by blast
      then have "take n (c # cs) = (c # inner) @ [34] \<and> decode_escapes (c # inner) = Some v"
        using n v False by simp
      then show ?thesis by blast
    next
      case True
      from quote True "2.prems" have ok: "\<not> (c = 10 \<or> c = 13)" "\<not> (c < 32 \<and> c \<noteq> 9)"
        by (auto split: if_splits)
      from quote True "2.prems" obtain e rest where cs: "cs = e # rest"
        by (cases cs) auto
      show ?thesis
      proof (cases "escaped_char e")
        case (Some d)
        with quote True cs "2.prems" obtain n' v' where
          r: "read_string_chars rest = Inr (n', v')" and n: "n = 2 + n'" and v: "v = [d] @ v'"
          by (auto simp: shift_Inr)
        from "2.IH"(2)[OF quote ok True cs Some r] obtain inner where
          "take n' rest = inner @ [34]" "decode_escapes inner = Some v'" by blast
        then have "take n (c # cs) = (c # e # inner) @ [34] \<and>
            decode_escapes (c # e # inner) = Some v"
          using n v True cs Some by simp
        then show ?thesis by blast
      next
        case None
        with quote True cs "2.prems" have e: "e = 117"
          by (auto split: if_splits)
        with None quote True cs "2.prems" obtain u where u: "uni_char_code (take 4 rest) = Some u"
          by (auto split: option.splits)
        with None e quote True cs "2.prems" obtain n' v' where
          r: "read_string_chars (drop 4 rest) = Inr (n', v')" and n: "n = 6 + n'"
          and v: "v = [u] @ v'"
          by (auto simp: shift_Inr)
        from "2.IH"(1)[OF quote ok True cs None e u r] obtain inner where
          i: "take n' (drop 4 rest) = inner @ [34]" "decode_escapes inner = Some v'" by blast
        from u obtain z za zb zc where t4: "take 4 rest = [z, za, zb, zc]"
          by (auto simp: uni_char_code_def split: list.splits option.splits)
        have len: "length (take 4 rest) = 4" unfolding t4 by simp
        then have l4: "4 \<le> length rest" by simp
        have t4n: "take (4 + n') rest = take 4 rest @ inner @ [34]"
          using i(1) by (simp add: take_add)
        have "n = Suc (Suc (4 + n'))" using n by simp
        then have "take n (c # cs) = c # e # take (4 + n') rest"
          unfolding cs by (simp only: take_Suc_Cons)
        then have t: "take n (c # cs) = (c # e # take 4 rest @ inner) @ [34]"
          unfolding t4n by simp
        have "decode_escapes (c # e # take 4 rest @ inner) = Some v"
          using True e None u i(2) v len l4 by simp
        with t show ?thesis by blast
      qed
    qed
  qed
qed

lemma punctuation_kind:
  "punctuation c = Some k \<Longrightarrow> k \<noteq> NAME \<and> k \<noteq> INT_kind \<and> k \<noteq> FLOAT \<and> k \<noteq> STRING"
  by (auto simp: punctuation_def split: if_splits)

lemma read_token_cases:
  assumes "read_token src from_position = Inr token"
  shows "(tok_kind token \<noteq> NAME \<and> tok_kind token \<noteq> INT_kind \<and> tok_kind token \<noteq> FLOAT \<and>
            tok_kind token \<noteq> STRING) \<or>
         (tok_kind token \<noteq> STRING \<and>
            (\<exists>v. tok_value token = Some v \<and> tok_end token = tok_start token + length v \<and>
                 v = take (length v) (drop (tok_start token) (body src)))) \<or>
         (tok_kind token = STRING \<and>
            (\<exists>rest n v. drop (tok_start token) (body src) = 34 # rest \<and>
                 read_string_chars rest = Inr (n, v) \<and>
                 tok_end token = tok_start token + 1 + n \<and> tok_value token = Some v))"
proof -
  define position where
    "position = from_position + skip_ignored False (drop from_position (body src))"
  show ?thesis
  proof (cases "drop position (body src)")
    case Nil
    with assms show ?thesis
      by (auto simp: read_token_def position_def Let_def)
  next
    case (Cons c rest)
    note cs = this [unfolded position_def]
    show ?thesis
    proof (cases "punctuation c")
      case (Some k)
      with assms cs have "tok_kind token = k"
        by (auto simp: read_token_def Let_def split: if_splits)
      with punctuation_kind[OF Some] show ?thesis by simp
    next
      case None
      consider (dot) "c = 46" | (name) "c \<noteq> 46" "is_name_start c"
        | (number) "c \<noteq> 46" "\<not> is_name_start c" "c = 45 \<or> is_digit c"
        | (string) "c \<noteq> 46" "\<not> is_name_start c" "\<not> (c = 45 \<or> is_digit c)" "c = 34"
        | (other) "c \<noteq> 46" "\<not> is_name_start c" "\<not> (c = 45 \<or> is_digit c)" "c \<noteq> 34"
        by blast
      then show ?thesis
      proof cases
        case dot
        with assms cs None have "tok_kind token = SPREAD"
          by (auto simp: read_token_def Let_def split: if_splits)
        then show ?thesis by simp
      next
        case name
        with assms cs None have
          "token = \<lparr>tok_kind = NAME, tok_start = position,
                    tok_end = position + length (read_name (c # rest)),
                    tok_value = Some (read_name (c # rest))\<rparr>"
          by (auto simp: read_token_def Let_def position_def split: if_splits)
        moreover have "read_name (c # rest) =
            take (length (read_name (c # rest))) (drop position (body src))"
          unfolding Cons read_name_def by (rule takeWhile_take)
        ultimately show ?thesis by simp
      next
        case number
        with assms cs None obtain v is_float where
          r: "read_number (c # rest) = Inr (v, is_float)" and
          t: "token = \<lparr>tok_kind = (if is_float then FLOAT else INT_kind), tok_start = position,
                    tok_end = position + length v, tok_value = Some v\<rparr>"
          by (auto simp: read_token_def Let_def position_def split: if_splits sum.splits)
        from read_number_prefix[OF r] have "v = take (length v) (drop position (body src))"
          unfolding Cons .
        with t show ?thesis by simp
      next
        case string
        with assms cs None obtain n v where
          r: "read_string_chars rest = Inr (n, v)" and
          t: "token = \<lparr>tok_kind = STRING, tok_start = position,
                    tok_end = position + 1 + n, tok_value = Some v\<rparr>"
          by (auto simp: read_token_def Let_def position_def split: if_splits sum.splits)
        with Cons string show ?thesis by simp
      next
        case other
        with assms cs None show ?thesis
          by (auto simp: read_token_def Let_def split: if_splits)
      qed
    qed
  qed
qed

lemmas lex_defs = lex_one_def next_token_def read_token_def Lexer_init_def Source_init_def
  ustr_def is_ignored_def punctuation_def is_digit_def is_name_start_def
  is_name_continue_def read_name_def read_number_def scan_seq_def read_sign_def
  read_int_part_def read_digits_def read_fraction_def read_exponent_def
  read_exponent_sign_def escaped_char_def uni_char_code_def hex_value_def shift_def
  unexpected_character_def unexpected_digit_def expected_digit_def print_char_code_def
  hex_digit_def

lemmas render_defs = syntax_error_def get_location_def highlight_source_at_location_def
  split_lines_def context_line_def show_nat.simps

lemma sublist_mid: "sublist d (a @ d @ b)"
  unfolding sublist_def by blast

lemma read_token_error:
  assumes "read_token src from_position = Inl e"
  shows "\<exists>position description. e = syntax_error src position description"
proof -
  define position where
    "position = from_position + skip_ignored False (drop from_position (body src))"
  show ?thesis
  proof (cases "drop position (body src)")
    case Nil
    with assms show ?thesis
      by (auto simp: read_token_def position_def Let_def)
  next
    case (Cons c rest)
    note cs = this [unfolded position_def]
    show ?thesis
    proof (cases "punctuation c")
      case (Some k)
      with assms cs show ?thesis
        by (auto simp: read_token_def Let_def split: if_splits)
    next
      case None
      with assms cs show ?thesis
        by (auto simp: read_token_def Let_def split: if_splits sum.splits)
    qed
  qed
qed

lemma syntax_error_message:
  "syntax_message (syntax_error src position description) =
     ustr ''Syntax Error '' @ source_name src @ ustr '' (''
       @ show_nat (syntax_line (syntax_error src position description)) @ ustr '':''
       @ show_nat (syntax_column (syntax_error src position description)) @ ustr '') ''
       @ description @ [10, 10]
       @ highlight_source_at_location (body src)
           (syntax_line (syntax_error src position description))
           (syntax_column (syntax_error src position description))"
  by (simp add: syntax_error_def split: prod.splits)

lemma syntax_error_location:
  "(syntax_line (syntax_error src position description),
    syntax_column (syntax_error src position description)) =
   get_location (body src) (syntax_position (syntax_error src position description))"
  by (simp add: syntax_error_def split: prod.splits)

lemma replicate_numeral: "replicate (numeral k) x = x # replicate (pred_numeral k) x"
  by (simp add: numeral_eq_Suc)

lemma question_next_token:
  "next_token (Lexer_init (Source_init question_source)) = Inl question_error"
  by (simp add: question_source_def question_error_def lex_defs render_defs)

section \<open>Claims about the type map\<close>

lemma cyclic_init:
  "GraphQLTypeMap_init (\<lambda>s a b. a = b) cyclic_heap [Some (Named 0)] =
     Inr \<lparr>entries = [(''A'', 0), (''B'', 1), (''Int'', 2)],
          possible_type_map = Map.empty, implementations = Map.empty\<rparr>"
  by (simp add: GraphQLTypeMap_init_def cyclic_heap_def deref_def reduce_types_def
        reduce_output_fields_def reduce_args_def is_output_type_def is_input_type_def
        build_implementations_def enforce_implementations_def check_all_def)

text \<open>
  Claim C1. For every store and every list of roots, cyclic or not, the construction of
  a \<open>GraphQLTypeMap\<close> ends: the budget of one nested insertion per object of the store
  is never used up, and a larger budget gives the same map or the same error. When
  the construction succeeds, the names of the map are distinct and every named type
  reachable from the roots through union members, interface lists, field types and
  argument types is in the map under its own name, exactly once.
\<close>

theorem typemap_closure:
  "GraphQLTypeMap_init sub h types \<noteq> Inl OutOfFuel \<and>
   (\<forall>k. fold_err (\<lambda>ty mp. reducer (length h + k) h mp ty) types [] =
        fold_err (\<lambda>ty mp. reducer (length h) h mp ty) types []) \<and>
   (\<forall>tm. GraphQLTypeMap_init sub h types = Inr tm \<longrightarrow>
      distinct (map fst (entries tm)) \<and>
      (\<forall>r \<in> reachable h types. \<exists>d. deref h r = Some d \<and>
          map_of (entries tm) (type_name d) = Some r \<and>
          count_list (map snd (entries tm)) r = 1))"
proof (intro conjI allI impI ballI)
  show "GraphQLTypeMap_init sub h types \<noteq> Inl OutOfFuel" by (rule init_fuel)
next
  fix k
  show "fold_err (\<lambda>ty mp. reducer (length h + k) h mp ty) types [] =
        fold_err (\<lambda>ty mp. reducer (length h) h mp ty) types []"
    by (rule roots_agree)
next
  fix tm assume "GraphQLTypeMap_init sub h types = Inr tm"
  from roots_ok[OF init_entries[OF this]]
  have a: "map_inv h (entries tm)" "grows h [] (entries tm)"
    "\<forall>t. Some t \<in> set types \<longrightarrow> registered h (entries tm) (named_of t)" by auto
  show "distinct (map fst (entries tm))" using a(1) by (simp add: map_inv_def)
  fix r assume "r \<in> reachable h types"
  from reachable_registered[OF a(2,3) this] have reg: "registered h (entries tm) r" .
  then obtain d where d: "deref h r = Some d" "map_of (entries tm) (type_name d) = Some r"
    by (auto simp: registered_def split: option.splits)
  from registered_entry[OF reg] have "r \<in> set (map snd (entries tm))" by force
  with map_inv_values_distinct[OF a(1)] have "count_list (map snd (entries tm)) r = 1"
    by (rule distinct_count_list_one)
  with d show "\<exists>d. deref h r = Some d \<and> map_of (entries tm) (type_name d) = Some r \<and>
          count_list (map snd (entries tm)) r = 1" by simp
qed

theorem typemap_closure_witness:
  "GraphQLTypeMap_init (\<lambda>s a b. a = b) cyclic_heap [Some (Named 0)] \<noteq> Inl OutOfFuel \<and>
   (\<exists>tm. GraphQLTypeMap_init (\<lambda>s a b. a = b) cyclic_heap [Some (Named 0)] = Inr tm \<and>
      entries tm = [(''A'', 0), (''B'', 1), (''Int'', 2)] \<and>
      0 \<in> reachable cyclic_heap [Some (Named 0)] \<and>
      1 \<in> reachable cyclic_heap [Some (Named 0)] \<and>
      map_of (entries tm) ''A'' = Some 0 \<and> count_list (map snd (entries tm)) 0 = 1 \<and>
      map_of (entries tm) ''B'' = Some 1 \<and> count_list (map snd (entries tm)) 1 = 1)"
proof -
  let ?roots = "[Some (Named 0)]"
  have r0: "0 \<in> reachable cyclic_heap ?roots"
    using reachable.root[of "Named 0" ?roots cyclic_heap] by simp
  have r1: "1 \<in> reachable cyclic_heap ?roots"
    by (rule reachable.step[OF r0, where d="cyclic_heap ! 0"])
       (simp_all add: cyclic_heap_def deref_def field_refs_def)
  from typemap_closure[of "\<lambda>s a b. a = b" cyclic_heap ?roots] cyclic_init r0 r1
  show ?thesis by (simp add: cyclic_heap_def deref_def)
qed

text \<open>
  Claim C2. When the reducer reaches a type (under any wrappers) whose name is already
  in the map, it compares the stored type with the one reached, by identity. The same
  type: the map is returned unchanged. Another type of that name: the call fails with
  the assertion error whose message contains \<open>must contain unique named types\<close> and
  the name in double quotes, and so does the construction when the type is reached as a
  root. A construction that succeeds has no two distinct reachable types of one name.
\<close>

theorem reducer_revisit:
  "(deref h (named_of t) = Some ty \<longrightarrow> map_of mp (type_name ty) = Some r' \<longrightarrow>
      (r' = named_of t \<longrightarrow> reducer fuel h mp (Some t) = Inr mp) \<and>
      (r' \<noteq> named_of t \<longrightarrow>
         reducer fuel h mp (Some t) =
           Inl (AssertionError (unique_named_types_message (type_name ty))) \<and>
         (\<forall>sub pre post. fold_err (\<lambda>ty mp. reducer (length h) h mp ty) pre [] = Inr mp \<longrightarrow>
            GraphQLTypeMap_init sub h (pre @ Some t # post) =
              Inl (AssertionError (unique_named_types_message (type_name ty))))) \<and>
      sublist ''must contain unique named types''
        (unique_named_types_message (type_name ty)) \<and>
      sublist (''\"'' @ type_name ty @ ''\"'') (unique_named_types_message (type_name ty))) \<and>
   (\<forall>sub types tm. GraphQLTypeMap_init sub h types = Inr tm \<longrightarrow>
      (\<forall>r1 \<in> reachable h types. \<forall>r2 \<in> reachable h types. \<forall>d1 d2.
         deref h r1 = Some d1 \<longrightarrow> deref h r2 = Some d2 \<longrightarrow> type_name d1 = type_name d2 \<longrightarrow>
         r1 = r2))"
proof (intro conjI impI allI ballI)
  assume ty: "deref h (named_of t) = Some ty" and m: "map_of mp (type_name ty) = Some r'"
  show "reducer fuel h mp (Some t) = Inr mp" if "r' = named_of t"
    using ty m that by (subst reducer_unwrap) simp
  show dup: "reducer fuel h mp (Some t) =
      Inl (AssertionError (unique_named_types_message (type_name ty)))" if "r' \<noteq> named_of t"
    using ty m that by (subst reducer_unwrap) simp
  show "sublist ''must contain unique named types'' (unique_named_types_message (type_name ty))"
    and "sublist (''\"'' @ type_name ty @ ''\"'') (unique_named_types_message (type_name ty))"
    using unique_message_quotes by blast+
  fix sub pre post
  assume ne: "r' \<noteq> named_of t"
    and pre: "fold_err (\<lambda>ty mp. reducer (length h) h mp ty) pre [] = Inr mp"
  have "reducer (length h) h mp (Some t) =
      Inl (AssertionError (unique_named_types_message (type_name ty)))"
    using ty m ne by (subst reducer_unwrap) simp
  from fold_err_stops[OF pre, of "Some t", OF this]
  show "GraphQLTypeMap_init sub h (pre @ Some t # post) =
      Inl (AssertionError (unique_named_types_message (type_name ty)))"
    by (simp add: GraphQLTypeMap_init_def)
next
  fix sub types tm r1 r2 d1 d2
  assume init: "GraphQLTypeMap_init sub h types = Inr tm"
    and r: "r1 \<in> reachable h types" "r2 \<in> reachable h types"
    and d: "deref h r1 = Some d1" "deref h r2 = Some d2" "type_name d1 = type_name d2"
  from roots_ok[OF init_entries[OF init]]
  have a: "grows h [] (entries tm)"
    "\<forall>t. Some t \<in> set types \<longrightarrow> registered h (entries tm) (named_of t)" by auto
  from reachable_registered[OF a r(1)] reachable_registered[OF a r(2)] d
  show "r1 = r2" by (simp add: registered_def)
qed

theorem reducer_revisit_witness:
  "deref dup_heap (named_of (GraphQLList (Named 1))) = Some (GraphQLEnumType ''A'') \<and>
   map_of [(''A'', 0::ref)] (type_name (GraphQLEnumType ''A'')) = Some 0 \<and>
   reducer 2 dup_heap [(''A'', 0)] (Some (GraphQLList (Named 1))) =
     Inl (AssertionError
       ''Schema must contain unique named types but contains multiple types named \"A\".'') \<and>
   GraphQLTypeMap_init (\<lambda>s a b. a = b) dup_heap
       ([Some (Named 0)] @ Some (GraphQLList (Named 1)) # []) =
     Inl (AssertionError
       ''Schema must contain unique named types but contains multiple types named \"A\".'') \<and>
   deref dup_heap (named_of (Named 0)) = Some (GraphQLScalarType ''A'') \<and>
   reducer 2 dup_heap [(''A'', 0)] (Some (Named 0)) = Inr [(''A'', 0)]"
proof -
  let ?t = "GraphQLList (Named 1)"
  let ?mp = "[(''A'', 0::nat)]"
  have 1: "deref dup_heap (named_of ?t) = Some (GraphQLEnumType ''A'')"
    and 2: "map_of ?mp (type_name (GraphQLEnumType ''A'')) = Some 0"
    and 3: "deref dup_heap (named_of (Named 0)) = Some (GraphQLScalarType ''A'')"
    and 4: "map_of ?mp (type_name (GraphQLScalarType ''A'')) = Some 0"
    and 5: "fold_err (\<lambda>ty mp. reducer (length dup_heap) dup_heap mp ty) [Some (Named 0)] []
              = Inr ?mp"
    and ne: "0 \<noteq> named_of ?t" and eq: "0 = named_of (Named 0)"
    by (simp_all add: dup_heap_def deref_def)
  have m: "unique_named_types_message (type_name (GraphQLEnumType ''A'')) =
      ''Schema must contain unique named types but contains multiple types named \"A\".''"
    by (simp add: unique_named_types_message_def)
  from reducer_revisit[of dup_heap ?t "GraphQLEnumType ''A''" ?mp 0 2] 1 2 ne 5
  have "reducer 2 dup_heap ?mp (Some ?t) =
          Inl (AssertionError (unique_named_types_message (type_name (GraphQLEnumType ''A'')))) \<and>
        GraphQLTypeMap_init (\<lambda>s a b. a = b) dup_heap ([Some (Named 0)] @ Some ?t # []) =
          Inl (AssertionError (unique_named_types_message (type_name (GraphQLEnumType ''A''))))"
    by blast
  then have a: "reducer 2 dup_heap ?mp (Some ?t) =
     Inl (AssertionError
       ''Schema must contain unique named types but contains multiple types named \"A\".'')"
    and b: "GraphQLTypeMap_init (\<lambda>s a b. a = b) dup_heap ([Some (Named 0)] @ Some ?t # []) =
     Inl (AssertionError
       ''Schema must contain unique named types but contains multiple types named \"A\".'')"
    unfolding m by blast+
  from reducer_revisit[of dup_heap "Named 0" "GraphQLScalarType ''A''" ?mp 0 2] 3 4 eq
  have c: "reducer 2 dup_heap ?mp (Some (Named 0)) = Inr ?mp" by blast
  show ?thesis using 1 2 3 a b c by blast
qed






section \<open>Claims about the lexer\<close>

text \<open>
  Claim C5. For every token that \<open>next_token\<close> returns, from any position of any
  source: if its kind is \<open>NAME\<close>, \<open>INT\<close> or \<open>FLOAT\<close>, its value is the slice of
  the body from its start to its end; if its kind is \<open>STRING\<close>, its value is what
  \<open>escape_decode\<close> makes of that slice.
\<close>

theorem token_round_trip:
  assumes "next_token lexer = Inr (token, lexer')"
  shows "(tok_kind token = NAME \<or> tok_kind token = INT_kind \<or> tok_kind token = FLOAT \<longrightarrow>
            tok_value token =
              Some (slice (body (lexer_source lexer)) (tok_start token) (tok_end token))) \<and>
         (tok_kind token = STRING \<longrightarrow>
            (\<exists>v. tok_value token = Some v \<and>
               escape_decode (slice (body (lexer_source lexer)) (tok_start token) (tok_end token))
                 = Some v))"
proof -
  let ?b = "body (lexer_source lexer)"
  from assms have r: "read_token (lexer_source lexer) (prev_position lexer) = Inr token"
    by (auto simp: next_token_def split: sum.splits)
  from read_token_cases[OF r] show ?thesis
  proof (elim disjE conjE exE)
    assume "tok_kind token \<noteq> NAME" "tok_kind token \<noteq> INT_kind" "tok_kind token \<noteq> FLOAT"
      "tok_kind token \<noteq> STRING"
    then show ?thesis by simp
  next
    fix v
    assume "tok_kind token \<noteq> STRING" "tok_value token = Some v"
      "tok_end token = tok_start token + length v"
      "v = take (length v) (drop (tok_start token) ?b)"
    then show ?thesis by (simp add: slice_def)
  next
    fix rest n v
    assume k: "tok_kind token = STRING" and d: "drop (tok_start token) ?b = 34 # rest"
      and rs: "read_string_chars rest = Inr (n, v)"
      and e: "tok_end token = tok_start token + 1 + n" and tv: "tok_value token = Some v"
    from read_string_chars_decodes[OF rs] obtain inner where
      i: "take n rest = inner @ [34]" "decode_escapes inner = Some v" by blast
    have "slice ?b (tok_start token) (tok_end token) = 34 # inner @ [34]"
      using e d i(1) by (simp add: slice_def)
    then have "escape_decode (slice ?b (tok_start token) (tok_end token)) = Some v"
      using i(2) by (simp add: escape_decode_def butlast_append)
    with k tv show ?thesis by simp
  qed
qed

theorem token_round_trip_witness:
  "\<exists>token lexer'.
     next_token (Lexer_init (Source_init string_source)) = Inr (token, lexer') \<and>
     tok_kind token = STRING \<and> tok_start token = 2 \<and> tok_end token = 13 \<and>
     tok_value token = Some [97, 10, 65] \<and>
     escape_decode (slice string_source 2 13) = Some [97, 10, 65]"
proof -
  let ?t = "\<lparr>tok_kind = STRING, tok_start = 2, tok_end = 13, tok_value = Some [97, 10, 65]\<rparr>"
  let ?l = "\<lparr>lexer_source = Source_init string_source, prev_position = 13\<rparr>"
  have run: "next_token (Lexer_init (Source_init string_source)) = Inr (?t, ?l)"
    by (simp add: string_source_def lex_defs)
  from token_round_trip[OF run]
  have "escape_decode (slice string_source 2 13) = Some [97, 10, 65]"
    by (simp add: Lexer_init_def Source_init_def)
  with run show ?thesis by simp
qed

text \<open>
  Claim C6. The message of every syntax error of the lexer is \<open>Syntax Error\<close>, the
  name of the source, the line and the column of the error in parentheses, the
  description, an empty line, and the snippet of \<open>highlight_source_at_location\<close>: the
  lines before, of and after the error, as far as they exist, each after its number
  right-aligned, a colon and a space, with the caret line under the line of the error. For
  the source of the test the message is, code point for code point, the one the test
  expects.
\<close>

theorem syntax_error_rendering:
  "(next_token lexer = Inl e \<longrightarrow>
      (\<exists>description.
         syntax_message e =
           ustr ''Syntax Error '' @ source_name (lexer_source lexer) @ ustr '' (''
             @ show_nat (syntax_line e) @ ustr '':'' @ show_nat (syntax_column e) @ ustr '') ''
             @ description @ [10, 10]
             @ highlight_source_at_location (body (lexer_source lexer))
                 (syntax_line e) (syntax_column e)) \<and>
      (syntax_line e, syntax_column e) =
        get_location (body (lexer_source lexer)) (syntax_position e)) \<and>
   lex_one question_source = Inl question_error"
proof (intro conjI impI)
  assume "next_token lexer = Inl e"
  then have "read_token (lexer_source lexer) (prev_position lexer) = Inl e"
    by (auto simp: next_token_def split: sum.splits)
  from read_token_error[OF this] obtain position description where
    e: "e = syntax_error (lexer_source lexer) position description" by blast
  show "\<exists>description.
         syntax_message e =
           ustr ''Syntax Error '' @ source_name (lexer_source lexer) @ ustr '' (''
             @ show_nat (syntax_line e) @ ustr '':'' @ show_nat (syntax_column e) @ ustr '') ''
             @ description @ [10, 10]
             @ highlight_source_at_location (body (lexer_source lexer))
                 (syntax_line e) (syntax_column e)"
    unfolding e using syntax_error_message by blast
  show "(syntax_line e, syntax_column e) =
        get_location (body (lexer_source lexer)) (syntax_position e)"
    unfolding e by (rule syntax_error_location)
next
  show "lex_one question_source = Inl question_error"
    using question_next_token by (simp add: lex_one_def)
qed

theorem syntax_error_rendering_witness:
  "next_token (Lexer_init (Source_init question_source)) = Inl question_error \<and>
   (\<exists>description.
      syntax_message question_error =
        ustr ''Syntax Error '' @ ustr ''GraphQL'' @ ustr '' ('' @ show_nat 3 @ ustr '':''
          @ show_nat 5 @ ustr '') '' @ description @ [10, 10]
          @ highlight_source_at_location question_source 3 5) \<and>
   get_location question_source 6 = (3, 5) \<and>
   highlight_source_at_location question_source 3 5 =
     ustr ''2: \<newline>3:     ?\<newline>       ^\<newline>4: \<newline>''"
proof -
  note T = syntax_error_rendering[of "Lexer_init (Source_init question_source)" question_error]
  from T question_next_token
  have "(\<exists>description.
         syntax_message question_error =
           ustr ''Syntax Error '' @ source_name (lexer_source (Lexer_init (Source_init question_source)))
             @ ustr '' ('' @ show_nat (syntax_line question_error) @ ustr '':''
             @ show_nat (syntax_column question_error) @ ustr '') ''
             @ description @ [10, 10]
             @ highlight_source_at_location (body (lexer_source (Lexer_init (Source_init question_source))))
                 (syntax_line question_error) (syntax_column question_error))"
    and "(syntax_line question_error, syntax_column question_error) =
        get_location (body (lexer_source (Lexer_init (Source_init question_source))))
          (syntax_position question_error)"
    by blast+
  then have a: "\<exists>description.
      syntax_message question_error =
        ustr ''Syntax Error '' @ ustr ''GraphQL'' @ ustr '' ('' @ show_nat 3 @ ustr '':''
          @ show_nat 5 @ ustr '') '' @ description @ [10, 10]
          @ highlight_source_at_location question_source 3 5"
    and b: "get_location question_source 6 = (3, 5)"
    by (simp_all add: Lexer_init_def Source_init_def question_error_def)
  have c: "highlight_source_at_location question_source 3 5 =
     ustr ''2: \<newline>3:     ?\<newline>       ^\<newline>4: \<newline>''"
    by (simp add: question_source_def ustr_def render_defs replicate_numeral)
  show ?thesis using question_next_token a b c by blast
qed

text \<open>
  Claim C7. A text that starts with \<open>0\<close> and a digit fails to lex: the error is at
  line 1, column 2, and its message contains \<open>Invalid number, unexpected digit after 0:\<close>
  with the digit between double quotes and a full stop. For the text \<open>00\<close> the digit
  named is \<open>0\<close>.
\<close>

theorem digit_after_zero:
  assumes "is_digit d"
  shows "\<exists>e. lex_one (48 # d # rest) = Inl e \<and> syntax_line e = 1 \<and> syntax_column e = 2 \<and>
            sublist (ustr ''Invalid number, unexpected digit after 0: '' @ [34, d, 34] @ ustr ''.'')
              (syntax_message e)"
proof -
  let ?src = "Source_init (48 # d # rest)"
  let ?e = "syntax_error ?src 1 (unexpected_digit d)"
  have d: "48 \<le> d" "d \<le> 57" using assms by (simp_all add: is_digit_def)
  have n: "read_number (48 # d # rest) = Inl (1, unexpected_digit d)"
    using assms by (simp add: read_number_def scan_seq_def read_sign_def read_int_part_def)
  have p: "unexpected_digit d =
      ustr ''Invalid number, unexpected digit after 0: '' @ [34, d, 34] @ ustr ''.''"
    using d by (simp add: print_char_code_def unexpected_digit_def)
  have run: "lex_one (48 # d # rest) = Inl ?e"
    using n by (simp add: lex_one_def next_token_def read_token_def Lexer_init_def
          Source_init_def is_ignored_def punctuation_def is_name_start_def is_digit_def)
  have loc: "get_location (body ?src) 1 = (1, 2)"
    by (simp add: get_location_def Source_init_def)
  have lc: "syntax_line ?e = 1" "syntax_column ?e = 2"
    using loc by (simp_all add: syntax_error_def)
  have msg: "syntax_message ?e =
       (ustr ''Syntax Error '' @ source_name ?src @ ustr '' ('' @ show_nat 1
              @ ustr '':'' @ show_nat 2 @ ustr '') '') @ unexpected_digit d @ ([10, 10]
              @ highlight_source_at_location (body ?src) 1 2)"
    using loc by (simp add: syntax_error_def)
  have "sublist (unexpected_digit d) (syntax_message ?e)"
    unfolding msg by (rule sublist_mid)
  then have "sublist (ustr ''Invalid number, unexpected digit after 0: '' @ [34, d, 34] @ ustr ''.'')
      (syntax_message ?e)"
    unfolding p .
  with run lc show ?thesis by blast
qed

theorem digit_after_zero_witness:
  "is_digit 48 \<and>
   (\<exists>e. lex_one (ustr ''00'') = Inl e \<and> syntax_line e = 1 \<and> syntax_column e = 2 \<and>
      sublist (ustr ''Invalid number, unexpected digit after 0: \"0\".'') (syntax_message e))"
proof -
  have d: "is_digit 48" by (simp add: is_digit_def)
  have s: "ustr ''00'' = 48 # 48 # []" by (simp add: ustr_def)
  have m: "ustr ''Invalid number, unexpected digit after 0: '' @ [34, 48, 34] @ ustr ''.'' =
      ustr ''Invalid number, unexpected digit after 0: \"0\".''"
    by (simp add: ustr_def)
  from digit_after_zero[OF d, of "[]"] show ?thesis
    unfolding s m using d by blast
qed

text \<open>
  Claim C8. Take a constructed type map, then any sequence \<open>qs\<close> of earlier
  \<open>is_possible_type\<close> calls on it (\<open>run_queries\<close>), then an abstract type \<open>a\<close> with
  the list \<open>pts\<close> of possible types, whose names are \<open>ns\<close>, and a candidate type
  \<open>p\<close>. The list that \<open>get_possible_types\<close> returns for \<open>a\<close> is \<open>pts\<close> after the earlier
  calls and after the call \<open>is_possible_type\<close> for \<open>a\<close> and \<open>p\<close>. When \<open>pts\<close> is empty
  that call fails with the assertion error, in whatever state the cache is. When
  \<open>pts\<close> is not empty the call returns a boolean, and the same call again returns the
  same boolean. The cache is keyed by the name of the abstract type: the boolean says
  whether the name of the candidate is among \<open>ns\<close> when no earlier call was about
  another abstract type of the name of \<open>a\<close>. Of the entries of a type map no two
  share a name, and the possible types of an entry are objects of the store
  (\<open>possible_types_exist\<close>).
\<close>

theorem is_possible_type_cache:
  assumes init: "GraphQLTypeMap_init sub h types = Inr tm0"
    and abstract: "deref h a = Some ad" "get_possible_types tm0 h a = Inr pts"
    and names: "names_of h pts = Inr ns"
    and cand: "deref h p = Some pd"
  shows "get_possible_types (run_queries h tm0 qs) h a = Inr pts \<and>
         (pts = [] \<longrightarrow>
            is_possible_type (run_queries h tm0 qs) h a p =
              Inl (NoPossibleTypes (type_name ad))) \<and>
         (pts \<noteq> [] \<longrightarrow>
            (\<exists>b tm'. is_possible_type (run_queries h tm0 qs) h a p = Inr (b, tm') \<and>
               is_possible_type tm' h a p = Inr (b, tm') \<and>
               get_possible_types tm' h a = Inr pts \<and>
               ((\<forall>(a', p') \<in> set qs. name_is h (type_name ad) a' \<longrightarrow> a' = a) \<longrightarrow>
                  b = (type_name pd \<in> set ns))))"
proof -
  let ?tm = "run_queries h tm0 qs"
  have g: "get_possible_types ?tm h a = Inr pts"
    using abstract(2) get_possible_types_same[of ?tm tm0 h a] run_queries_frame[of h tm0 qs]
    by simp
  have empty: "is_possible_type ?tm h a p = Inl (NoPossibleTypes (type_name ad))"
    if "pts = []"
    using is_possible_type_empty[of ?tm h a ad p] g abstract(1) that by simp
  have full: "\<exists>b tm'. is_possible_type ?tm h a p = Inr (b, tm') \<and>
               is_possible_type tm' h a p = Inr (b, tm') \<and>
               get_possible_types tm' h a = Inr pts \<and>
               ((\<forall>(a', p') \<in> set qs. name_is h (type_name ad) a' \<longrightarrow> a' = a) \<longrightarrow>
                  b = (type_name pd \<in> set ns))"
    if ne: "pts \<noteq> []"
  proof -
    from is_possible_type_answer[OF g abstract(1) ne names cand] obtain b tm' where
      run: "is_possible_type ?tm h a p = Inr (b, tm')"
      and mem: "(\<forall>s. possible_type_map ?tm (type_name ad) = Some s \<longrightarrow> s = set ns) \<longrightarrow>
              b = (type_name pd \<in> set ns)"
      by blast
    have 2: "is_possible_type tm' h a p = Inr (b, tm')"
      by (rule is_possible_type_twice[OF run])
    have 3: "get_possible_types tm' h a = Inr pts"
      using is_possible_type_frame(3)[OF run] g by simp
    have 4: "b = (type_name pd \<in> set ns)"
      if clash: "\<forall>(a', p') \<in> set qs. name_is h (type_name ad) a' \<longrightarrow> a' = a"
    proof -
      have "\<forall>s. possible_type_map tm0 (type_name ad) = Some s \<longrightarrow> s = set ns"
        using init_parts(2)[OF init] by simp
      from run_queries_cache[OF abstract(1) abstract(2) names clash this] mem
      show ?thesis by blast
    qed
    from run 2 3 4 show ?thesis by blast
  qed
  from g empty full show ?thesis by blast
qed

theorem is_possible_type_cache_witness:
  "get_possible_types (run_queries schema_heap schema_map [(4, 3)]) schema_heap 1 = Inr [3, 2] \<and>
   names_of schema_heap [3, 2] = Inr [''Cat'', ''Dog''] \<and>
   (\<exists>tm'. is_possible_type (run_queries schema_heap schema_map [(4, 3)]) schema_heap 1 2 =
            Inr (True, tm') \<and>
          is_possible_type tm' schema_heap 1 2 = Inr (True, tm') \<and>
          get_possible_types tm' schema_heap 1 = Inr [3, 2]) \<and>
   get_possible_types (run_queries schema_heap schema_map [(4, 3)]) schema_heap 5 = Inr [] \<and>
   is_possible_type (run_queries schema_heap schema_map [(4, 3)]) schema_heap 5 2 =
     Inl (NoPossibleTypes ''Lonely'')"
proof -
  let ?tm = "run_queries schema_heap schema_map [(4, 3)]"
  let ?pet = "GraphQLInterfaceType ''Pet''
        [(''name'', \<lparr>field_type = Named 6,
                     field_args = [(''full'', \<lparr>arg_type = Named 7\<rparr>)]\<rparr>)]"
  let ?lonely = "GraphQLInterfaceType ''Lonely''
        [(''id'', \<lparr>field_type = Named 6, field_args = []\<rparr>)]"
  let ?dog = "GraphQLObjectType ''Dog''
        [(''name'', \<lparr>field_type = Named 6,
                     field_args = [(''full'', \<lparr>arg_type = Named 7\<rparr>),
                                   (''loud'', \<lparr>arg_type = GraphQLList (GraphQLNonNull (Named 7))\<rparr>)]\<rparr>)]
        [1]"
  have d1: "deref schema_heap 1 = Some ?pet" and d5: "deref schema_heap 5 = Some ?lonely"
    and d2: "deref schema_heap 2 = Some ?dog"
    by (simp_all add: schema_heap_def deref_def)
  have g1: "get_possible_types schema_map schema_heap 1 = Inr [3, 2]"
    and g5: "get_possible_types schema_map schema_heap 5 = Inr []"
    by (simp_all add: get_possible_types_def schema_heap_def schema_map_def deref_def)
  have n1: "names_of schema_heap [3, 2] = Inr [''Cat'', ''Dog'']"
    and n5: "names_of schema_heap [] = Inr []"
    by (simp_all add: schema_heap_def deref_def)
  have earlier: "\<forall>(a', p') \<in> set [(4, 3::ref)]. name_is schema_heap (type_name ?pet) a' \<longrightarrow> a' = 1"
    by (simp add: name_is_def schema_heap_def deref_def)
  note P = is_possible_type_cache[OF schema_init d1 g1 n1 d2, of "[(4, 3)]"]
  note L = is_possible_type_cache[OF schema_init d5 g5 n5 d2, of "[(4, 3)]"]
  from P have a: "get_possible_types ?tm schema_heap 1 = Inr [3, 2]" by blast
  from P earlier
  have "\<exists>b tm'. is_possible_type ?tm schema_heap 1 2 = Inr (b, tm') \<and>
          is_possible_type tm' schema_heap 1 2 = Inr (b, tm') \<and>
          get_possible_types tm' schema_heap 1 = Inr [3, 2] \<and>
          b = (type_name ?dog \<in> set [''Cat'', ''Dog''])"
    by blast
  then have b: "\<exists>tm'. is_possible_type ?tm schema_heap 1 2 = Inr (True, tm') \<and>
          is_possible_type tm' schema_heap 1 2 = Inr (True, tm') \<and>
          get_possible_types tm' schema_heap 1 = Inr [3, 2]"
    by auto
  from L have c: "get_possible_types ?tm schema_heap 5 = Inr []" by blast
  from L have "is_possible_type ?tm schema_heap 5 2 = Inl (NoPossibleTypes (type_name ?lonely))"
    by blast
  then have d: "is_possible_type ?tm schema_heap 5 2 = Inl (NoPossibleTypes ''Lonely'')"
    by simp
  from a n1 b c d show ?thesis by blast
qed

text \<open>
  Claim C8 as first stated has \<open>is_possible_type\<close> equal, for every abstract type, the
  membership of the name of the candidate among the names of \<open>get_possible_types\<close>,
  with no effect of the cache. On the type map of \<open>clash_heap\<close> the interface
  \<open>Lonely\<close> has the empty list of possible types, where membership is false, and
  \<open>is_possible_type\<close> fails. The union \<open>CatOrDog\<close> of the map has the members \<open>Cat\<close>
  and \<open>Dog\<close>, and on the new map \<open>is_possible_type\<close> answers true for \<open>Cat\<close>. After
  one call about the other union of that name, which fills the cache under the name
  \<open>CatOrDog\<close> with \<open>Dog\<close> alone, the same call answers false, while
  \<open>get_possible_types\<close> still lists \<open>Cat\<close>.
\<close>

theorem is_possible_type_cache_counterexample:
  "GraphQLTypeMap_init (\<lambda>s a b. a = b) clash_heap [Some (Named 0), None] = Inr schema_map \<and>
   get_possible_types schema_map clash_heap 5 = Inr [] \<and>
   is_possible_type schema_map clash_heap 5 2 = Inl (NoPossibleTypes ''Lonely'') \<and>
   deref clash_heap 4 = Some (GraphQLUnionType ''CatOrDog'' [3, 2]) \<and>
   deref clash_heap 8 = Some (GraphQLUnionType ''CatOrDog'' [2]) \<and>
   get_possible_types schema_map clash_heap 4 = Inr [3, 2] \<and>
   names_of clash_heap [3, 2] = Inr [''Cat'', ''Dog''] \<and>
   is_possible_type schema_map clash_heap 4 3 =
     Inr (True, schema_map\<lparr>possible_type_map := [''CatOrDog'' \<mapsto> {''Cat'', ''Dog''}]\<rparr>) \<and>
   is_possible_type schema_map clash_heap 8 2 = Inr (True, clashed_map) \<and>
   get_possible_types clashed_map clash_heap 4 = Inr [3, 2] \<and>
   is_possible_type clashed_map clash_heap 4 3 = Inr (False, clashed_map)"
proof -
  have 1: "get_possible_types schema_map clash_heap 5 = Inr []"
    by (simp add: get_possible_types_def clash_heap_def schema_heap_def schema_map_def deref_def)
  have 2: "is_possible_type schema_map clash_heap 5 2 = Inl (NoPossibleTypes ''Lonely'')"
    by (simp add: is_possible_type_def get_possible_types_def clash_heap_def schema_heap_def
        schema_map_def deref_def)
  have 3: "deref clash_heap 4 = Some (GraphQLUnionType ''CatOrDog'' [3, 2])"
    and 4: "deref clash_heap 8 = Some (GraphQLUnionType ''CatOrDog'' [2])"
    by (simp_all add: clash_heap_def schema_heap_def deref_def)
  have 5: "get_possible_types schema_map clash_heap 4 = Inr [3, 2]"
    and 6: "get_possible_types clashed_map clash_heap 4 = Inr [3, 2]"
    by (simp_all add: get_possible_types_def clash_heap_def schema_heap_def deref_def)
  have 7: "names_of clash_heap [3, 2] = Inr [''Cat'', ''Dog'']"
    by (simp add: clash_heap_def schema_heap_def deref_def)
  have 8: "is_possible_type schema_map clash_heap 4 3 =
     Inr (True, schema_map\<lparr>possible_type_map := [''CatOrDog'' \<mapsto> {''Cat'', ''Dog''}]\<rparr>)"
    by (simp add: is_possible_type_def get_possible_types_def clash_heap_def schema_heap_def
        schema_map_def deref_def)
  have 9: "is_possible_type schema_map clash_heap 8 2 = Inr (True, clashed_map)"
    by (simp add: is_possible_type_def get_possible_types_def clash_heap_def schema_heap_def
        schema_map_def clashed_map_def deref_def)
  have 10: "is_possible_type clashed_map clash_heap 4 3 = Inr (False, clashed_map)"
    by (simp add: is_possible_type_def get_possible_types_def clash_heap_def schema_heap_def
        schema_map_def clashed_map_def deref_def)
  from clash_init 1 2 3 4 5 6 7 8 9 10 show ?thesis by blast
qed

text \<open>
  Claim C9. For an interface with no entry in \<open>_implementations\<close> (which is the
  case exactly when no object type of the map lists an interface of that name),
  \<open>get_possible_types\<close> returns the empty list and does not fail, and
  \<open>is_possible_type\<close> fails with the assertion error.
\<close>

theorem get_possible_types_no_implementers:
  assumes "GraphQLTypeMap_init sub h types = Inr tm"
    and "deref h a = Some (GraphQLInterfaceType nm fm)"
  shows "(implementations tm nm = None \<longleftrightarrow>
            implementers_named h (map snd (entries tm)) nm = []) \<and>
         (implementations tm nm = None \<longrightarrow>
            get_possible_types (tm\<lparr>possible_type_map := c\<rparr>) h a = Inr [] \<and>
            is_possible_type (tm\<lparr>possible_type_map := c\<rparr>) h a p =
              Inl (NoPossibleTypes nm))"
proof (intro conjI impI)
  note b = build_implementations_lookup[OF init_parts(1)[OF assms(1)], of nm]
  show "implementations tm nm = None \<longleftrightarrow>
      implementers_named h (map snd (entries tm)) nm = []"
    using b by (cases "implementations tm nm") (auto simp: lookup_list_def)
  assume none: "implementations tm nm = None"
  show 1: "get_possible_types (tm\<lparr>possible_type_map := c\<rparr>) h a = Inr []"
    using assms(2) none by (simp add: get_possible_types_def)
  from is_possible_type_empty[OF 1 assms(2), of p]
  show "is_possible_type (tm\<lparr>possible_type_map := c\<rparr>) h a p = Inl (NoPossibleTypes nm)"
    by simp
qed

theorem get_possible_types_no_implementers_witness:
  "GraphQLTypeMap_init (\<lambda>s a b. a = b) schema_heap [Some (Named 0), None] = Inr schema_map \<and>
   deref schema_heap 5 =
     Some (GraphQLInterfaceType ''Lonely''
            [(''id'', \<lparr>field_type = Named 6, field_args = []\<rparr>)]) \<and>
   implementations schema_map ''Lonely'' = None \<and>
   get_possible_types (schema_map\<lparr>possible_type_map := Map.empty\<rparr>) schema_heap 5 = Inr [] \<and>
   is_possible_type (schema_map\<lparr>possible_type_map := Map.empty\<rparr>) schema_heap 5 3 =
     Inl (NoPossibleTypes ''Lonely'')"
proof -
  have d: "deref schema_heap 5 =
     Some (GraphQLInterfaceType ''Lonely''
            [(''id'', \<lparr>field_type = Named 6, field_args = []\<rparr>)])"
    by (simp add: schema_heap_def deref_def)
  have n: "implementations schema_map ''Lonely'' = None"
    by (simp add: schema_map_def)
  from get_possible_types_no_implementers[OF schema_init d, of Map.empty 3] schema_init d n
  show ?thesis by blast
qed

section \<open>Claim about the rule on fragment names\<close>

text \<open>
  Claim C10. Both enter hooks return \<open>SKIP\<close>, and neither raises. Entering a
  fragment definition whose name is known reports one error with the message of
  \<open>duplicate_fragment_name_message\<close> and exactly two nodes, the recorded name node and
  the name node of the definition entered, and leaves \<open>known_fragment_names\<close> as it
  was; entering one whose name is new records its name node and reports nothing. Over a
  whole document the recorded node of a name is therefore the first name node of that
  value, and every later definition of the name is reported with that first node.
\<close>

theorem unique_fragment_names:
  "fst (enter_operation_definition self) = SKIP \<and>
   fst (enter_fragment_definition self node) = SKIP \<and>
   (\<forall>first. known_fragment_names self (name_value (fragment_def_name node)) = Some first \<longrightarrow>
      snd (enter_fragment_definition self node) =
        self\<lparr>reported := reported self @
          [\<lparr>message = duplicate_fragment_name_message (name_value (fragment_def_name node)),
            nodes = [first, fragment_def_name node]\<rparr>]\<rparr>) \<and>
   (known_fragment_names self (name_value (fragment_def_name node)) = None \<longrightarrow>
      snd (enter_fragment_definition self node) =
        self\<lparr>known_fragment_names :=
          (known_fragment_names self)
            (name_value (fragment_def_name node) \<mapsto> fragment_def_name node)\<rparr>) \<and>
   known_fragment_names (visit_definitions UniqueFragmentNamesRule_init ds) n =
     first_named n (fragment_names ds) \<and>
   reported (visit_definitions UniqueFragmentNamesRule_init ds) =
     expected_errors (fragment_names ds)"
  using visit_definitions_state[of ds n]
  by (simp add: enter_operation_definition_def enter_fragment_definition_def report_error_def
        Let_def split: option.splits)

theorem unique_fragment_names_witness:
  "known_fragment_names (visit_definitions UniqueFragmentNamesRule_init frag_doc) ''f'' =
     Some \<lparr>name_value = ''f'', name_loc = 9\<rparr> \<and>
   reported (visit_definitions UniqueFragmentNamesRule_init frag_doc) =
     [\<lparr>message = ''There can only be one fragment named '' @ [CHR 0x27] @ ''f'' @ [CHR 0x27] @ ''.'',
       nodes = [\<lparr>name_value = ''f'', name_loc = 9\<rparr>, \<lparr>name_value = ''f'', name_loc = 40\<rparr>]\<rparr>,
      \<lparr>message = ''There can only be one fragment named '' @ [CHR 0x27] @ ''f'' @ [CHR 0x27] @ ''.'',
       nodes = [\<lparr>name_value = ''f'', name_loc = 9\<rparr>, \<lparr>name_value = ''f'', name_loc = 99\<rparr>]\<rparr>]"
proof -
  have 1: "first_named ''f'' (fragment_names frag_doc) = Some \<lparr>name_value = ''f'', name_loc = 9\<rparr>"
    by (simp add: frag_doc_def first_named_def)
  have 2: "expected_errors (fragment_names frag_doc) =
     [\<lparr>message = ''There can only be one fragment named '' @ [CHR 0x27] @ ''f'' @ [CHR 0x27] @ ''.'',
       nodes = [\<lparr>name_value = ''f'', name_loc = 9\<rparr>, \<lparr>name_value = ''f'', name_loc = 40\<rparr>]\<rparr>,
      \<lparr>message = ''There can only be one fragment named '' @ [CHR 0x27] @ ''f'' @ [CHR 0x27] @ ''.'',
       nodes = [\<lparr>name_value = ''f'', name_loc = 9\<rparr>, \<lparr>name_value = ''f'', name_loc = 99\<rparr>]\<rparr>]"
    by (simp add: frag_doc_def expected_errors_def first_named_def duplicate_error_def
          duplicate_fragment_name_message_def upt_rec)
  from unique_fragment_names[of _ _ frag_doc "''f''"] 1 2 show ?thesis by simp
qed

end
